theory Spec2Isabelle
  imports Main "HOL-Library.Word"
begin

section \<open>The storage Node of \<^verbatim>\<open>node.go\<close>\<close>

text \<open>
  The package \<^verbatim>\<open>node\<close> holds one in-memory shard of records behind a mutex and a
  background goroutine that announces the Node to a Router. The development has two parts:
  the three table operations as state-passing functions on the Node, and an interleaving
  model of goroutines (one atomic step per statement) for the heartbeat loop and for
  concurrent callers.
\<close>

subsection \<open>Data\<close>

text \<open>
  \<^verbatim>\<open>storage.RecordID\<close>, \<open>storage.ServiceAddr\<close> and \<open>router.Client\<close> are declared in other
  packages; \<^verbatim>\<open>node.go\<close> only compares, stores and passes them on, so they are the type
  parameters \<open>'k\<close>, \<open>'a\<close> and \<open>'c\<close>. A \<^verbatim>\<open>[]byte\<close> is a list of 8-bit words, a
  \<^verbatim>\<open>time.Duration\<close> a 64-bit word.
\<close>

type_synonym byte = "8 word"
type_synonym payload = "byte list"
type_synonym Duration = "64 word"

text \<open>
  Modelled from the spec: the two error values \<^verbatim>\<open>storage.ErrRecordExists\<close> and
  \<^verbatim>\<open>storage.ErrRecordNotFound\<close> of the package \<^verbatim>\<open>storage\<close>, whose declarations are
  not part of \<^verbatim>\<open>node.go\<close>. The spec names them as two distinct failure kinds,
  \<open>RecordExists\<close> and \<open>RecordNotFound\<close>.
\<close>

datatype error = ErrRecordExists | ErrRecordNotFound

record ('a, 'c) Config =
  Addr :: 'a
  Router :: 'a
  Heartbeat :: Duration
  Client :: 'c

text \<open>
  The fields of \<^verbatim>\<open>Node\<close>. The mutex \<open>lock\<close> is held or free. The channel \<open>test\<close> is
  unbuffered (\<^verbatim>\<open>make(chan struct{})\<close>), so its whole state is the queue of goroutines
  blocked in a send on it, named by their index. The Go map \<open>data\<close> is a partial function.
\<close>

record ('k, 'a, 'c) Node =
  lock :: bool
  cfg :: "('a, 'c) Config"
  test :: "nat list"
  data :: "'k \<rightharpoonup> payload"

definition New :: "('a, 'c) Config \<Rightarrow> ('k, 'a, 'c) Node" where
  "New c = \<lparr>lock = False, cfg = c, test = [], data = Map.empty\<rparr>"

subsection \<open>The table operations, called by one goroutine at a time\<close>

text \<open>
  \<^verbatim>\<open>sync.Mutex.Lock\<close> returns once the mutex is free and then holds it; on a held mutex
  the caller waits, which for a lone caller is forever: the result \<open>None\<close>.
  \<^verbatim>\<open>Unlock\<close> frees it. Every \<open>Unlock\<close> below is the deferred one of a function that
  has taken the mutex at its first statement.
\<close>

definition Lock :: "('k, 'a, 'c) Node \<Rightarrow> ('k, 'a, 'c) Node option" where
  "Lock node = (if lock node then None else Some (node\<lparr>lock := True\<rparr>))"

definition Unlock :: "('k, 'a, 'c) Node \<Rightarrow> ('k, 'a, 'c) Node" where
  "Unlock node = node\<lparr>lock := False\<rparr>"

text \<open>
  \<^verbatim>\<open>Put\<close> returns an \<^verbatim>\<open>error\<close>, \<open>nil\<close> on success: an \<open>error option\<close>, paired with
  the Node after the call.
\<close>

definition Put ::
  "('k, 'a, 'c) Node \<Rightarrow> 'k \<Rightarrow> payload \<Rightarrow> (error option \<times> ('k, 'a, 'c) Node) option" where
  "Put node k d =
     (case Lock node of
        None \<Rightarrow> None
      | Some n \<Rightarrow>
          if data n k = None
          then Some (None, Unlock (n\<lparr>data := (data n)(k \<mapsto> d)\<rparr>))
          else Some (Some ErrRecordExists, Unlock n))"

definition Del ::
  "('k, 'a, 'c) Node \<Rightarrow> 'k \<Rightarrow> (error option \<times> ('k, 'a, 'c) Node) option" where
  "Del node k =
     (case Lock node of
        None \<Rightarrow> None
      | Some n \<Rightarrow>
          if data n k \<noteq> None
          then Some (None, Unlock (n\<lparr>data := (data n)(k := None)\<rparr>))
          else Some (Some ErrRecordNotFound, Unlock n))"

text \<open>
  \<^verbatim>\<open>Get\<close> returns \<^verbatim>\<open>(d, nil)\<close> or \<^verbatim>\<open>(nil, storage.ErrRecordNotFound)\<close>: a sum, with
  \<open>Inl\<close> the error.
\<close>

definition Get ::
  "('k, 'a, 'c) Node \<Rightarrow> 'k \<Rightarrow> ((error + payload) \<times> ('k, 'a, 'c) Node) option" where
  "Get node k =
     (case Lock node of
        None \<Rightarrow> None
      | Some n \<Rightarrow>
          (case data n k of
             Some d \<Rightarrow> Some (Inr d, Unlock n)
           | None \<Rightarrow> Some (Inl ErrRecordNotFound, Unlock n)))"

subsection \<open>Goroutines\<close>

text \<open>
  Several goroutines work on one Node. Each is at a statement of the function it runs; the
  constructors below name these places after the source. A call of \<^verbatim>\<open>Put\<close> is at its
  \<^verbatim>\<open>Lock\<close>, then holds the mutex before the lookup \<^verbatim>\<open>_, ok := node.data[k]\<close>, then (when
  \<open>ok\<close> is false) before the assignment \<^verbatim>\<open>node.data[k] = d\<close>, then has its return value
  and the deferred \<^verbatim>\<open>Unlock\<close> left to run, then has returned. \<^verbatim>\<open>Del\<close> and \<^verbatim>\<open>Get\<close>
  likewise. \<^verbatim>\<open>startHb\<close> is at its \<^verbatim>\<open>select\<close>, at the call of the client, at
  \<^verbatim>\<open>time.Sleep\<close>, or has returned. \<^verbatim>\<open>Stop\<close> is before its send, blocked in it, or has
  returned.
\<close>

datatype 'k goroutine =
    Put_call 'k payload
  | Put_locked 'k payload
  | Put_store 'k payload
  | Put_deferred "error option"
  | Put_ret "error option"
  | Del_call 'k
  | Del_locked 'k
  | Del_delete 'k
  | Del_deferred "error option"
  | Del_ret "error option"
  | Get_call 'k
  | Get_locked 'k
  | Get_deferred "error + payload"
  | Get_ret "error + payload"
  | Heartbeats_call
  | Heartbeats_ret
  | startHb_select
  | startHb_heartbeat
  | startHb_sleep
  | startHb_ret
  | Stop_call
  | Stop_blocked
  | Stop_ret

text \<open>
  What a goroutine does to the world outside the Node is recorded as an event: the outcome
  of a \<^verbatim>\<open>select\<close> (the senders it found waiting on \<open>test\<close>; none means the
  \<^verbatim>\<open>default\<close> branch), the call \<^verbatim>\<open>Client.Heartbeat(router, addr)\<close>, and
  \<^verbatim>\<open>time.Sleep(d)\<close>. The trace pairs each event with the goroutine that made it.
\<close>

datatype ('a, 'c) event =
    Select "nat list"
  | Client_Heartbeat 'c 'a 'a
  | Sleep Duration

record ('k, 'a, 'c) system =
  shared :: "('k, 'a, 'c) Node"
  goroutines :: "'k goroutine list"
  trace :: "(nat \<times> ('a, 'c) event) list"

text \<open>
  One statement of goroutine \<open>i\<close>. A goroutine that cannot go on (waiting for the mutex,
  blocked in the send, returned) leaves the system as it is. A statement that takes long,
  such as the call of the client, is a goroutine that is not scheduled for a while.

  The \<^verbatim>\<open>select\<close> of \<^verbatim>\<open>startHb\<close> has a \<^verbatim>\<open>default\<close> branch, so it never waits: it
  receives when a sender is waiting on \<open>test\<close>, which lets the first such sender go on and
  makes \<^verbatim>\<open>startHb\<close> return, and runs the \<^verbatim>\<open>default\<close> branch otherwise. The send of
  \<^verbatim>\<open>Stop\<close> therefore never finds a receiver waiting and always queues.
  \<^verbatim>\<open>go startHb(node)\<close> adds a goroutine at the head of the loop.
\<close>

fun exec ::
  "('k, 'a, 'c) system \<Rightarrow> nat \<Rightarrow> 'k goroutine \<Rightarrow> ('k, 'a, 'c) system" where
  "exec s i (Put_call k d) =
     (case Lock (shared s) of
        None \<Rightarrow> s
      | Some n \<Rightarrow> s\<lparr>shared := n, goroutines := (goroutines s)[i := Put_locked k d]\<rparr>)"
| "exec s i (Put_locked k d) =
     (if data (shared s) k = None
      then s\<lparr>goroutines := (goroutines s)[i := Put_store k d]\<rparr>
      else s\<lparr>goroutines := (goroutines s)[i := Put_deferred (Some ErrRecordExists)]\<rparr>)"
| "exec s i (Put_store k d) =
     s\<lparr>shared := (shared s)\<lparr>data := (data (shared s))(k \<mapsto> d)\<rparr>,
       goroutines := (goroutines s)[i := Put_deferred None]\<rparr>"
| "exec s i (Put_deferred r) =
     s\<lparr>shared := Unlock (shared s), goroutines := (goroutines s)[i := Put_ret r]\<rparr>"
| "exec s i (Put_ret r) = s"
| "exec s i (Del_call k) =
     (case Lock (shared s) of
        None \<Rightarrow> s
      | Some n \<Rightarrow> s\<lparr>shared := n, goroutines := (goroutines s)[i := Del_locked k]\<rparr>)"
| "exec s i (Del_locked k) =
     (if data (shared s) k \<noteq> None
      then s\<lparr>goroutines := (goroutines s)[i := Del_delete k]\<rparr>
      else s\<lparr>goroutines := (goroutines s)[i := Del_deferred (Some ErrRecordNotFound)]\<rparr>)"
| "exec s i (Del_delete k) =
     s\<lparr>shared := (shared s)\<lparr>data := (data (shared s))(k := None)\<rparr>,
       goroutines := (goroutines s)[i := Del_deferred None]\<rparr>"
| "exec s i (Del_deferred r) =
     s\<lparr>shared := Unlock (shared s), goroutines := (goroutines s)[i := Del_ret r]\<rparr>"
| "exec s i (Del_ret r) = s"
| "exec s i (Get_call k) =
     (case Lock (shared s) of
        None \<Rightarrow> s
      | Some n \<Rightarrow> s\<lparr>shared := n, goroutines := (goroutines s)[i := Get_locked k]\<rparr>)"
| "exec s i (Get_locked k) =
     (case data (shared s) k of
        Some d \<Rightarrow> s\<lparr>goroutines := (goroutines s)[i := Get_deferred (Inr d)]\<rparr>
      | None \<Rightarrow> s\<lparr>goroutines := (goroutines s)[i := Get_deferred (Inl ErrRecordNotFound)]\<rparr>)"
| "exec s i (Get_deferred r) =
     s\<lparr>shared := Unlock (shared s), goroutines := (goroutines s)[i := Get_ret r]\<rparr>"
| "exec s i (Get_ret r) = s"
| "exec s i Heartbeats_call =
     s\<lparr>goroutines := (goroutines s)[i := Heartbeats_ret] @ [startHb_select]\<rparr>"
| "exec s i Heartbeats_ret = s"
| "exec s i startHb_select =
     (case test (shared s) of
        j # q \<Rightarrow>
          s\<lparr>shared := (shared s)\<lparr>test := q\<rparr>,
            goroutines := (goroutines s)[i := startHb_ret, j := Stop_ret],
            trace := trace s @ [(i, Select (j # q))]\<rparr>
      | [] \<Rightarrow>
          s\<lparr>goroutines := (goroutines s)[i := startHb_heartbeat],
            trace := trace s @ [(i, Select [])]\<rparr>)"
| "exec s i startHb_heartbeat =
     s\<lparr>goroutines := (goroutines s)[i := startHb_sleep],
       trace := trace s @
         [(i, Client_Heartbeat (Client (cfg (shared s))) (Router (cfg (shared s)))
                (Addr (cfg (shared s))))]\<rparr>"
| "exec s i startHb_sleep =
     s\<lparr>goroutines := (goroutines s)[i := startHb_select],
       trace := trace s @ [(i, Sleep (Heartbeat (cfg (shared s))))]\<rparr>"
| "exec s i startHb_ret = s"
| "exec s i Stop_call =
     s\<lparr>shared := (shared s)\<lparr>test := test (shared s) @ [i]\<rparr>,
       goroutines := (goroutines s)[i := Stop_blocked]\<rparr>"
| "exec s i Stop_blocked = s"
| "exec s i Stop_ret = s"

definition step :: "('k, 'a, 'c) system \<Rightarrow> nat \<Rightarrow> ('k, 'a, 'c) system" where
  "step s i = (if i < length (goroutines s) then exec s i (goroutines s ! i) else s)"

text \<open>A schedule is the list of the goroutines that take the next steps, in order.\<close>

fun run :: "('k, 'a, 'c) system \<Rightarrow> nat list \<Rightarrow> ('k, 'a, 'c) system" where
  "run s [] = s"
| "run s (i # sched) = run (step s i) sched"

text \<open>
  A program starts from a Node made by \<^verbatim>\<open>New\<close> and goroutines that are each about to
  call one of the exported methods.
\<close>

fun entry :: "'k goroutine \<Rightarrow> bool" where
  "entry (Put_call k d) = True"
| "entry (Del_call k) = True"
| "entry (Get_call k) = True"
| "entry Heartbeats_call = True"
| "entry Stop_call = True"
| "entry g = False"

definition start :: "('a, 'c) Config \<Rightarrow> 'k goroutine list \<Rightarrow> ('k, 'a, 'c) system" where
  "start c gs = \<lparr>shared = New c, goroutines = gs, trace = []\<rparr>"

definition events_of :: "nat \<Rightarrow> (nat \<times> ('a, 'c) event) list \<Rightarrow> ('a, 'c) event list" where
  "events_of i tr = map snd (filter (\<lambda>e. fst e = i) tr)"

text \<open>The events of one full iteration of the loop of \<^verbatim>\<open>startHb\<close>.\<close>

definition iteration :: "('a, 'c) Config \<Rightarrow> ('a, 'c) event list" where
  "iteration c = [Select [], Client_Heartbeat (Client c) (Router c) (Addr c), Sleep (Heartbeat c)]"

subsection \<open>Invariants of the goroutine model\<close>

text \<open>The goroutines that run \<^verbatim>\<open>startHb\<close>, and those of them that have not returned.\<close>

fun is_startHb :: "'k goroutine \<Rightarrow> bool" where
  "is_startHb startHb_select = True"
| "is_startHb startHb_heartbeat = True"
| "is_startHb startHb_sleep = True"
| "is_startHb startHb_ret = True"
| "is_startHb g = False"

fun hb_active :: "'k goroutine \<Rightarrow> bool" where
  "hb_active startHb_select = True"
| "hb_active startHb_heartbeat = True"
| "hb_active startHb_sleep = True"
| "hb_active g = False"

text \<open>
  The events a goroutine running \<^verbatim>\<open>startHb\<close> has made, by the place it is at: some
  number of full iterations, then the part of the current iteration that lies behind it. A
  \<^verbatim>\<open>select\<close> that found a sender waiting is the last event, after which the goroutine
  has returned.
\<close>

definition loop_trace :: "('a, 'c) Config \<Rightarrow> 'k goroutine \<Rightarrow> ('a, 'c) event list \<Rightarrow> bool" where
  "loop_trace c g ev \<longleftrightarrow>
     (\<exists>n. (g = startHb_select \<and> ev = concat (replicate n (iteration c)))
        \<or> (g = startHb_heartbeat \<and> ev = concat (replicate n (iteration c)) @ [Select []])
        \<or> (g = startHb_sleep \<and>
             ev = concat (replicate n (iteration c)) @
                    [Select [], Client_Heartbeat (Client c) (Router c) (Addr c)])
        \<or> (g = startHb_ret \<and>
             (\<exists>j q. ev = concat (replicate n (iteration c)) @ [Select (j # q)])))"

text \<open>
  The goroutines queued on the channel are distinct and each is blocked in the send of
  \<^verbatim>\<open>Stop\<close>.
\<close>

definition chan_ok :: "('k, 'a, 'c) system \<Rightarrow> bool" where
  "chan_ok s \<longleftrightarrow>
     distinct (test (shared s)) \<and>
     (\<forall>j \<in> set (test (shared s)). j < length (goroutines s) \<and> goroutines s ! j = Stop_blocked)"

text \<open>
  Every goroutine running \<^verbatim>\<open>startHb\<close> has made the events of its place in the loop; no
  other goroutine has made any event.
\<close>

definition startHb_ok :: "('k, 'a, 'c) system \<Rightarrow> bool" where
  "startHb_ok s \<longleftrightarrow>
     (\<forall>i. if i < length (goroutines s) \<and> is_startHb (goroutines s ! i)
          then loop_trace (cfg (shared s)) (goroutines s ! i) (events_of i (trace s))
          else events_of i (trace s) = [])"

text \<open>
  A \<^verbatim>\<open>Stop\<close> that has returned was received from by a \<^verbatim>\<open>select\<close> of a goroutine
  running \<^verbatim>\<open>startHb\<close>, which has returned too.
\<close>

definition Stop_ok :: "('k, 'a, 'c) system \<Rightarrow> bool" where
  "Stop_ok s \<longleftrightarrow>
     (\<forall>j < length (goroutines s). goroutines s ! j = Stop_ret \<longrightarrow>
        (\<exists>i < length (goroutines s). \<exists>q.
           goroutines s ! i = startHb_ret \<and> (i, Select (j # q)) \<in> set (trace s)))"

text \<open>
  No goroutine is in the loop of \<^verbatim>\<open>startHb\<close> and none is about to start one with
  \<^verbatim>\<open>Heartbeats\<close>.
\<close>

definition no_heartbeats :: "'k goroutine list \<Rightarrow> bool" where
  "no_heartbeats gs \<longleftrightarrow> (\<forall>g \<in> set gs. \<not> hb_active g \<and> g \<noteq> Heartbeats_call)"

subsection \<open>Invariants of concurrent calls of \<^verbatim>\<open>Put\<close>\<close>

text \<open>The places at which a goroutine holds the mutex.\<close>

fun holds :: "'k goroutine \<Rightarrow> bool" where
  "holds (Put_locked k d) = True"
| "holds (Put_store k d) = True"
| "holds (Put_deferred r) = True"
| "holds (Del_locked k) = True"
| "holds (Del_delete k) = True"
| "holds (Del_deferred r) = True"
| "holds (Get_locked k) = True"
| "holds (Get_deferred r) = True"
| "holds g = False"

text \<open>
  Mutual exclusion: when the mutex is held exactly one goroutine is at such a place, and
  when it is free none is.
\<close>

definition mutex_ok :: "('k, 'a, 'c) system \<Rightarrow> bool" where
  "mutex_ok s \<longleftrightarrow>
     (if lock (shared s)
      then \<exists>h < length (goroutines s). holds (goroutines s ! h) \<and>
             (\<forall>j < length (goroutines s). j \<noteq> h \<longrightarrow> \<not> holds (goroutines s ! j))
      else \<forall>j < length (goroutines s). \<not> holds (goroutines s ! j))"

text \<open>
  The places of a call \<^verbatim>\<open>Put(k, d)\<close> while \<open>k\<close> is still absent; of a call that finds
  or will find \<open>k\<close> present; and of the call that has stored its payload.
\<close>

definition before :: "'k \<Rightarrow> payload \<Rightarrow> 'k goroutine \<Rightarrow> bool" where
  "before k d g \<longleftrightarrow> g = Put_call k d \<or> g = Put_locked k d \<or> g = Put_store k d"

definition loser :: "'k \<Rightarrow> payload \<Rightarrow> 'k goroutine \<Rightarrow> bool" where
  "loser k d g \<longleftrightarrow>
     g = Put_call k d \<or> g = Put_locked k d \<or>
     g = Put_deferred (Some ErrRecordExists) \<or> g = Put_ret (Some ErrRecordExists)"

definition winner :: "'k goroutine \<Rightarrow> bool" where
  "winner g \<longleftrightarrow> g = Put_deferred None \<or> g = Put_ret None"

text \<open>
  The state of a race of calls \<^verbatim>\<open>Put(k, ps ! j)\<close>, one per goroutine \<open>j\<close>: either \<open>k\<close> is
  absent and no call is past its assignment, or \<open>k\<close> holds the payload of one call \<open>w\<close>,
  which is past its assignment, and every other call has failed or has yet to look \<open>k\<close>
  up.
\<close>

definition Put_race :: "'k \<Rightarrow> payload list \<Rightarrow> ('k, 'a, 'c) system \<Rightarrow> bool" where
  "Put_race k ps s \<longleftrightarrow>
     length (goroutines s) = length ps \<and> mutex_ok s \<and>
     (case data (shared s) k of
        None \<Rightarrow> \<forall>j < length ps. before k (ps ! j) (goroutines s ! j)
      | Some v \<Rightarrow>
          \<exists>w < length ps. v = ps ! w \<and> winner (goroutines s ! w) \<and>
            (\<forall>j < length ps. j \<noteq> w \<longrightarrow> loser k (ps ! j) (goroutines s ! j)))"

text \<open>The most statements a call of \<^verbatim>\<open>Put\<close> has left to run.\<close>

fun Put_left :: "'k goroutine \<Rightarrow> nat" where
  "Put_left (Put_call k d) = 4"
| "Put_left (Put_locked k d) = 3"
| "Put_left (Put_store k d) = 2"
| "Put_left (Put_deferred r) = 1"
| "Put_left g = 0"

subsection \<open>Basic facts about the mutex\<close>

lemma Lock_free: "\<not> lock node \<Longrightarrow> Lock node = Some (node\<lparr>lock := True\<rparr>)"
  by (simp add: Lock_def)

lemma Lock_held: "lock node \<Longrightarrow> Lock node = None"
  by (simp add: Lock_def)

lemma Unlock_Lock: "\<not> lock node \<Longrightarrow> Unlock (node\<lparr>lock := True\<rparr>) = node"
  by (simp add: Unlock_def)

lemma Put_absent:
  "\<not> lock node \<Longrightarrow> data node k = None \<Longrightarrow>
     Put node k d = Some (None, node\<lparr>data := (data node)(k \<mapsto> d)\<rparr>)"
  by (simp add: Put_def Lock_def Unlock_def)

lemma Put_present:
  "\<not> lock node \<Longrightarrow> data node k = Some q \<Longrightarrow> Put node k d = Some (Some ErrRecordExists, node)"
  by (simp add: Put_def Lock_def Unlock_def)

lemma Get_present:
  "\<not> lock node \<Longrightarrow> data node k = Some d \<Longrightarrow> Get node k = Some (Inr d, node)"
  by (simp add: Get_def Lock_def Unlock_def)

lemma Get_absent:
  "\<not> lock node \<Longrightarrow> data node k = None \<Longrightarrow> Get node k = Some (Inl ErrRecordNotFound, node)"
  by (simp add: Get_def Lock_def Unlock_def)

lemma Del_present:
  "\<not> lock node \<Longrightarrow> data node k = Some d \<Longrightarrow>
     Del node k = Some (None, node\<lparr>data := (data node)(k := None)\<rparr>)"
  by (simp add: Del_def Lock_def Unlock_def)

lemma Del_absent:
  "\<not> lock node \<Longrightarrow> data node k = None \<Longrightarrow> Del node k = Some (Some ErrRecordNotFound, node)"
  by (simp add: Del_def Lock_def Unlock_def)


section \<open>The table operations\<close>

text \<open>
  In this section a single goroutine calls the operations one after the other, so each
  call finds the mutex free: the hypothesis \<open>\<not> lock n\<close>. Each call returns the Node with
  the mutex free again.
\<close>

lemma Put_Some_cases:
  assumes "\<not> lock n" and "Put n k d = Some (r, n')"
  shows "(r = None \<and> data n k = None \<and> n' = n\<lparr>data := (data n)(k \<mapsto> d)\<rparr>) \<or>
         (r = Some ErrRecordExists \<and> data n k \<noteq> None \<and> n' = n)"
  using assms by (cases "data n k") (auto simp: Put_absent Put_present)

text \<open>
  Claim C1. When \<open>k\<close> is absent from the table, \<open>Put n k p\<close> succeeds (returns \<open>nil\<close>), the
  table afterwards is the old one with \<open>p\<close> under \<open>k\<close>, and the next \<open>Get\<close> of \<open>k\<close> returns
  exactly \<open>p\<close>. When \<open>k\<close> is present with payload \<open>q\<close>, \<open>Put n k p\<close> fails with
  \<open>ErrRecordExists\<close> and returns the Node as it was, so that \<open>k\<close> still holds \<open>q\<close>.
\<close>

theorem Put_round_trip_or_RecordExists:
  assumes "\<not> lock n"
  shows "(data n k = None \<longrightarrow>
           (\<exists>n'. Put n k p = Some (None, n') \<and> data n' = (data n)(k \<mapsto> p) \<and>
                 Get n' k = Some (Inr p, n')))
       \<and> (\<forall>q. data n k = Some q \<longrightarrow>
           Put n k p = Some (Some ErrRecordExists, n) \<and> Get n k = Some (Inr q, n))"
  using assms by (auto simp: Put_absent Put_present Get_present)

theorem Put_round_trip_or_RecordExists_witness:
  "\<not> lock (New \<lparr>Addr = 1, Router = 2, Heartbeat = 1000, Client = ()\<rparr> :: (nat, nat, unit) Node)
   \<and> data (New \<lparr>Addr = 1, Router = 2, Heartbeat = 1000, Client = ()\<rparr> :: (nat, nat, unit) Node) 7
       = None
   \<and> (\<exists>n'. Put (New \<lparr>Addr = 1, Router = 2, Heartbeat = 1000, Client = ()\<rparr>
                  :: (nat, nat, unit) Node) 7 [1, 2] = Some (None, n')
         \<and> data n' 7 = Some [1, 2]
         \<and> Get n' 7 = Some (Inr [1, 2], n')
         \<and> \<not> lock n'
         \<and> Put n' 7 [3] = Some (Some ErrRecordExists, n')
         \<and> Get n' 7 = Some (Inr [1, 2], n'))"
proof -
  let ?n = "New \<lparr>Addr = 1, Router = 2, Heartbeat = 1000, Client = ()\<rparr> :: (nat, nat, unit) Node"
  let ?n' = "?n\<lparr>data := (data ?n)(7 \<mapsto> [1, 2])\<rparr>"
  have free: "\<not> lock ?n" and free': "\<not> lock ?n'"
    by (simp_all add: New_def)
  have absent: "data ?n 7 = None" and present: "data ?n' 7 = Some [1, 2]"
    by (simp_all add: New_def)
  from Put_round_trip_or_RecordExists [OF free, of 7 "[1, 2]"] absent
  obtain n' where 1: "Put ?n 7 [1, 2] = Some (None, n')" "Get n' 7 = Some (Inr [1, 2], n')"
    by blast
  have n': "n' = ?n'"
    using 1(1) unfolding Put_absent [OF free absent] by simp
  from Put_round_trip_or_RecordExists [OF free', of 7 "[3]"] present
  have 2: "Put ?n' 7 [3] = Some (Some ErrRecordExists, ?n')"
    by blast
  show ?thesis
    using free absent 1 2 free' present unfolding n' by blast
qed

text \<open>
  Claim C2. After a successful \<open>Put n k p1\<close>, which leaves the Node \<open>n1\<close>, a second
  \<open>Put n1 k p2\<close> fails with \<open>ErrRecordExists\<close> and returns \<open>n1\<close> itself (the failed call
  changes nothing), and \<open>Get n1 k\<close> still returns \<open>p1\<close>.
\<close>

theorem Put_twice_RecordExists:
  assumes "\<not> lock n" and "Put n k p1 = Some (None, n1)"
  shows "Put n1 k p2 = Some (Some ErrRecordExists, n1) \<and> Get n1 k = Some (Inr p1, n1)"
proof -
  from Put_Some_cases [OF assms] have n1: "n1 = n\<lparr>data := (data n)(k \<mapsto> p1)\<rparr>"
    by auto
  have "\<not> lock n1" and "data n1 k = Some p1"
    using assms(1) by (simp_all add: n1)
  then show ?thesis
    by (simp add: Put_present Get_present)
qed

theorem Put_twice_RecordExists_witness:
  "\<not> lock (New \<lparr>Addr = 1, Router = 2, Heartbeat = 1000, Client = ()\<rparr> :: (nat, nat, unit) Node)
   \<and> (\<exists>n1. Put (New \<lparr>Addr = 1, Router = 2, Heartbeat = 1000, Client = ()\<rparr>
                  :: (nat, nat, unit) Node) 7 [1, 2] = Some (None, n1)
         \<and> Put n1 7 [3, 4] = Some (Some ErrRecordExists, n1)
         \<and> Get n1 7 = Some (Inr [1, 2], n1))"
proof -
  let ?n = "New \<lparr>Addr = 1, Router = 2, Heartbeat = 1000, Client = ()\<rparr> :: (nat, nat, unit) Node"
  let ?n1 = "?n\<lparr>data := (data ?n)(7 \<mapsto> [1, 2])\<rparr>"
  have free: "\<not> lock ?n"
    by (simp add: New_def)
  have put: "Put ?n 7 [1, 2] = Some (None, ?n1)"
    by (simp add: Put_absent New_def)
  from Put_twice_RecordExists [OF free put, of "[3, 4]"] free put show ?thesis
    by blast
qed

text \<open>
  Claim C3. \<open>Get n k\<close> returns the payload stored under \<open>k\<close> when there is one and fails
  with \<open>ErrRecordNotFound\<close> when there is none; either way the Node it returns is \<open>n\<close>
  itself, so no entry of the table has changed.
\<close>

theorem Get_present_or_RecordNotFound:
  assumes "\<not> lock n"
  shows "(\<forall>d. data n k = Some d \<longrightarrow> Get n k = Some (Inr d, n))
       \<and> (data n k = None \<longrightarrow> Get n k = Some (Inl ErrRecordNotFound, n))"
  using assms by (simp add: Get_present Get_absent)

theorem Get_present_or_RecordNotFound_witness:
  "\<not> lock (\<lparr>lock = False, cfg = \<lparr>Addr = 1, Router = 2, Heartbeat = 1000, Client = ()\<rparr>,
            test = [], data = [7 \<mapsto> [1, 2]]\<rparr> :: (nat, nat, unit) Node)
   \<and> data (\<lparr>lock = False, cfg = \<lparr>Addr = 1, Router = 2, Heartbeat = 1000, Client = ()\<rparr>,
            test = [], data = [7 \<mapsto> [1, 2]]\<rparr> :: (nat, nat, unit) Node) 7 = Some [1, 2]
   \<and> Get (\<lparr>lock = False, cfg = \<lparr>Addr = 1, Router = 2, Heartbeat = 1000, Client = ()\<rparr>,
            test = [], data = [7 \<mapsto> [1, 2]]\<rparr> :: (nat, nat, unit) Node) 7
       = Some (Inr [1, 2],
           \<lparr>lock = False, cfg = \<lparr>Addr = 1, Router = 2, Heartbeat = 1000, Client = ()\<rparr>,
            test = [], data = [7 \<mapsto> [1, 2]]\<rparr>)
   \<and> data (\<lparr>lock = False, cfg = \<lparr>Addr = 1, Router = 2, Heartbeat = 1000, Client = ()\<rparr>,
            test = [], data = [7 \<mapsto> [1, 2]]\<rparr> :: (nat, nat, unit) Node) 8 = None
   \<and> Get (\<lparr>lock = False, cfg = \<lparr>Addr = 1, Router = 2, Heartbeat = 1000, Client = ()\<rparr>,
            test = [], data = [7 \<mapsto> [1, 2]]\<rparr> :: (nat, nat, unit) Node) 8
       = Some (Inl ErrRecordNotFound,
           \<lparr>lock = False, cfg = \<lparr>Addr = 1, Router = 2, Heartbeat = 1000, Client = ()\<rparr>,
            test = [], data = [7 \<mapsto> [1, 2]]\<rparr>)"
proof -
  let ?n = "\<lparr>lock = False, cfg = \<lparr>Addr = 1, Router = 2, Heartbeat = 1000, Client = ()\<rparr>,
            test = [], data = [7 \<mapsto> [1, 2]]\<rparr> :: (nat, nat, unit) Node"
  have free: "\<not> lock ?n"
    by simp
  have present: "data ?n 7 = Some [1, 2]" and absent: "data ?n 8 = None"
    by simp_all
  from Get_present_or_RecordNotFound [OF free, of 7] Get_present_or_RecordNotFound [OF free, of 8]
    free present absent
  show ?thesis
    by blast
qed

text \<open>
  Claim C4. \<open>Del n k\<close> fails with \<open>ErrRecordNotFound\<close> when \<open>k\<close> is absent (and returns the
  Node as it was). When \<open>k\<close> is present it succeeds and leaves the table without \<open>k\<close>;
  then \<open>Get\<close> of \<open>k\<close> fails with \<open>ErrRecordNotFound\<close>, and a following \<open>Put\<close> of \<open>p2\<close>
  under \<open>k\<close> succeeds, after which \<open>Get\<close> of \<open>k\<close> returns \<open>p2\<close>.
\<close>

theorem Del_removes_or_RecordNotFound:
  assumes "\<not> lock n"
  shows "(data n k = None \<longrightarrow> Del n k = Some (Some ErrRecordNotFound, n))
       \<and> (\<forall>d. data n k = Some d \<longrightarrow>
           (\<exists>n'. Del n k = Some (None, n') \<and> data n' = (data n)(k := None) \<and>
                 Get n' k = Some (Inl ErrRecordNotFound, n') \<and>
                 (\<exists>n''. Put n' k p2 = Some (None, n'') \<and> Get n'' k = Some (Inr p2, n''))))"
proof (intro conjI impI allI)
  assume "data n k = None"
  with assms show "Del n k = Some (Some ErrRecordNotFound, n)"
    by (simp add: Del_absent)
next
  fix d
  assume present: "data n k = Some d"
  let ?n' = "n\<lparr>data := (data n)(k := None)\<rparr>"
  let ?n'' = "?n'\<lparr>data := (data ?n')(k \<mapsto> p2)\<rparr>"
  have del: "Del n k = Some (None, ?n')"
    using assms present by (simp add: Del_present)
  have free': "\<not> lock ?n'" and absent': "data ?n' k = None"
    using assms by simp_all
  have get': "Get ?n' k = Some (Inl ErrRecordNotFound, ?n')"
    using free' absent' by (rule Get_absent)
  have put': "Put ?n' k p2 = Some (None, ?n'')"
    using free' absent' by (rule Put_absent)
  have "\<not> lock ?n''" and "data ?n'' k = Some p2"
    using assms by simp_all
  then have get'': "Get ?n'' k = Some (Inr p2, ?n'')"
    by (rule Get_present)
  have "data ?n' = (data n)(k := None)"
    by simp
  with del get' put' get''
  show "\<exists>n'. Del n k = Some (None, n') \<and> data n' = (data n)(k := None) \<and>
             Get n' k = Some (Inl ErrRecordNotFound, n') \<and>
             (\<exists>n''. Put n' k p2 = Some (None, n'') \<and> Get n'' k = Some (Inr p2, n''))"
    by blast
qed

theorem Del_removes_or_RecordNotFound_witness:
  "\<not> lock (\<lparr>lock = False, cfg = \<lparr>Addr = 1, Router = 2, Heartbeat = 1000, Client = ()\<rparr>,
            test = [], data = [7 \<mapsto> [1, 2]]\<rparr> :: (nat, nat, unit) Node)
   \<and> data (\<lparr>lock = False, cfg = \<lparr>Addr = 1, Router = 2, Heartbeat = 1000, Client = ()\<rparr>,
            test = [], data = [7 \<mapsto> [1, 2]]\<rparr> :: (nat, nat, unit) Node) 8 = None
   \<and> Del (\<lparr>lock = False, cfg = \<lparr>Addr = 1, Router = 2, Heartbeat = 1000, Client = ()\<rparr>,
            test = [], data = [7 \<mapsto> [1, 2]]\<rparr> :: (nat, nat, unit) Node) 8
       = Some (Some ErrRecordNotFound,
           \<lparr>lock = False, cfg = \<lparr>Addr = 1, Router = 2, Heartbeat = 1000, Client = ()\<rparr>,
            test = [], data = [7 \<mapsto> [1, 2]]\<rparr>)
   \<and> data (\<lparr>lock = False, cfg = \<lparr>Addr = 1, Router = 2, Heartbeat = 1000, Client = ()\<rparr>,
            test = [], data = [7 \<mapsto> [1, 2]]\<rparr> :: (nat, nat, unit) Node) 7 = Some [1, 2]
   \<and> (\<exists>n'. Del (\<lparr>lock = False, cfg = \<lparr>Addr = 1, Router = 2, Heartbeat = 1000, Client = ()\<rparr>,
            test = [], data = [7 \<mapsto> [1, 2]]\<rparr> :: (nat, nat, unit) Node) 7 = Some (None, n')
         \<and> data n' 7 = None
         \<and> Get n' 7 = Some (Inl ErrRecordNotFound, n')
         \<and> (\<exists>n''. Put n' 7 [9] = Some (None, n'') \<and> Get n'' 7 = Some (Inr [9], n'')))"
proof -
  let ?n = "\<lparr>lock = False, cfg = \<lparr>Addr = 1, Router = 2, Heartbeat = 1000, Client = ()\<rparr>,
            test = [], data = [7 \<mapsto> [1, 2]]\<rparr> :: (nat, nat, unit) Node"
  have free: "\<not> lock ?n"
    by simp
  have present: "data ?n 7 = Some [1, 2]" and absent: "data ?n 8 = None"
    by simp_all
  from Del_removes_or_RecordNotFound [OF free, of 8] absent
  have 1: "Del ?n 8 = Some (Some ErrRecordNotFound, ?n)"
    by blast
  from Del_removes_or_RecordNotFound [OF free, of 7 "[9]"] present
  obtain n' n'' where 2: "Del ?n 7 = Some (None, n')" "data n' = (data ?n)(7 := None)"
      "Get n' 7 = Some (Inl ErrRecordNotFound, n')" "Put n' 7 [9] = Some (None, n'')"
      "Get n'' 7 = Some (Inr [9], n'')"
    by blast
  from 2(2) have 3: "data n' 7 = None"
    by simp
  from free absent 1 present 2 3 show ?thesis
    by blast
qed

text \<open>
  Claim C7. The empty payload is a value like any other: with \<open>k\<close> absent, \<open>Put n k []\<close>
  succeeds, and the next \<open>Get\<close> of \<open>k\<close> succeeds with the empty payload, whereas \<open>Get\<close> of
  the absent \<open>k\<close> fails with \<open>ErrRecordNotFound\<close>; the two results differ. (A \<^verbatim>\<open>nil\<close>
  slice and an empty slice are both the empty list here.)
\<close>

theorem Put_empty_payload:
  assumes "\<not> lock n" and "data n k = None"
  shows "\<exists>n' r r'. Put n k [] = Some (None, n') \<and> data n' k = Some [] \<and>
           Get n' k = Some (r', n') \<and> r' = Inr [] \<and>
           Get n k = Some (r, n) \<and> r = Inl ErrRecordNotFound \<and> r \<noteq> r'"
proof -
  let ?n' = "n\<lparr>data := (data n)(k \<mapsto> [])\<rparr>"
  have "Put n k [] = Some (None, ?n')"
    using assms by (rule Put_absent)
  moreover have "\<not> lock ?n'" and stored: "data ?n' k = Some []"
    using assms by simp_all
  then have "Get ?n' k = Some (Inr [], ?n')"
    by (rule Get_present)
  moreover have "Get n k = Some (Inl ErrRecordNotFound, n)"
    using assms by (rule Get_absent)
  ultimately show ?thesis
    using stored by blast
qed

theorem Put_empty_payload_witness:
  "\<not> lock (New \<lparr>Addr = 1, Router = 2, Heartbeat = 1000, Client = ()\<rparr> :: (nat, nat, unit) Node)
   \<and> data (New \<lparr>Addr = 1, Router = 2, Heartbeat = 1000, Client = ()\<rparr> :: (nat, nat, unit) Node) 7
       = None
   \<and> (\<exists>n'. Put (New \<lparr>Addr = 1, Router = 2, Heartbeat = 1000, Client = ()\<rparr>
                  :: (nat, nat, unit) Node) 7 [] = Some (None, n')
         \<and> Get n' 7 = Some (Inr [], n'))
   \<and> Get (New \<lparr>Addr = 1, Router = 2, Heartbeat = 1000, Client = ()\<rparr> :: (nat, nat, unit) Node) 7
       = Some (Inl ErrRecordNotFound, New \<lparr>Addr = 1, Router = 2, Heartbeat = 1000, Client = ()\<rparr>)"
proof -
  let ?n = "New \<lparr>Addr = 1, Router = 2, Heartbeat = 1000, Client = ()\<rparr> :: (nat, nat, unit) Node"
  have free: "\<not> lock ?n" and absent: "data ?n 7 = None"
    by (simp_all add: New_def)
  from Put_empty_payload [OF free absent] free absent show ?thesis
    by blast
qed

text \<open>
  Claim C10. For two distinct keys \<open>k\<close> and \<open>k'\<close>, each of \<open>Put n k p\<close>, \<open>Del n k\<close> and
  \<open>Get n k\<close> returns, and in the Node it returns the entry of \<open>k'\<close> is what it was in \<open>n\<close>:
  the same payload, or still none.
\<close>

theorem other_keys_unchanged:
  assumes "\<not> lock n" and "k' \<noteq> k"
  shows "(\<exists>r n'. Put n k p = Some (r, n') \<and> data n' k' = data n k')
       \<and> (\<exists>r n'. Del n k = Some (r, n') \<and> data n' k' = data n k')
       \<and> (\<exists>r n'. Get n k = Some (r, n') \<and> data n' k' = data n k')"
  using assms by (cases "data n k") (simp_all add: Put_def Del_def Get_def Lock_def Unlock_def)

theorem other_keys_unchanged_witness:
  "\<not> lock (\<lparr>lock = False, cfg = \<lparr>Addr = 1, Router = 2, Heartbeat = 1000, Client = ()\<rparr>,
            test = [], data = [7 \<mapsto> [1, 2]]\<rparr> :: (nat, nat, unit) Node)
   \<and> (7::nat) \<noteq> 8
   \<and> (\<exists>r n'. Put (\<lparr>lock = False, cfg = \<lparr>Addr = 1, Router = 2, Heartbeat = 1000, Client = ()\<rparr>,
            test = [], data = [7 \<mapsto> [1, 2]]\<rparr> :: (nat, nat, unit) Node) 8 [5] = Some (r, n')
         \<and> data n' 7 = Some [1, 2])
   \<and> (\<exists>r n'. Del (\<lparr>lock = False, cfg = \<lparr>Addr = 1, Router = 2, Heartbeat = 1000, Client = ()\<rparr>,
            test = [], data = [7 \<mapsto> [1, 2]]\<rparr> :: (nat, nat, unit) Node) 8 = Some (r, n')
         \<and> data n' 7 = Some [1, 2])
   \<and> (\<exists>r n'. Get (\<lparr>lock = False, cfg = \<lparr>Addr = 1, Router = 2, Heartbeat = 1000, Client = ()\<rparr>,
            test = [], data = [7 \<mapsto> [1, 2]]\<rparr> :: (nat, nat, unit) Node) 8 = Some (r, n')
         \<and> data n' 7 = Some [1, 2])"
proof -
  let ?n = "\<lparr>lock = False, cfg = \<lparr>Addr = 1, Router = 2, Heartbeat = 1000, Client = ()\<rparr>,
            test = [], data = [7 \<mapsto> [1, 2]]\<rparr> :: (nat, nat, unit) Node"
  have free: "\<not> lock ?n" and neq: "(7::nat) \<noteq> 8" and val: "data ?n 7 = Some [1, 2]"
    by simp_all
  from other_keys_unchanged [OF free neq, of "[5]"] free neq show ?thesis
    unfolding val by blast
qed

section \<open>A goroutine alone\<close>

text \<open>
  The two parts agree: a goroutine that runs a table operation with no other goroutine
  beside it ends with the result and the Node that the state-passing function gives.
\<close>

lemma Put_alone:
  assumes "Put n k d = Some (r, n')"
  shows "run \<lparr>shared = n, goroutines = [Put_call k d], trace = tr\<rparr> [0, 0, 0, 0]
         = \<lparr>shared = n', goroutines = [Put_ret r], trace = tr\<rparr>"
  using assms
  by (cases "data n k")
    (auto simp: Put_def step_def Lock_def Unlock_def split: if_splits)

lemma Del_alone:
  assumes "Del n k = Some (r, n')"
  shows "run \<lparr>shared = n, goroutines = [Del_call k], trace = tr\<rparr> [0, 0, 0, 0]
         = \<lparr>shared = n', goroutines = [Del_ret r], trace = tr\<rparr>"
  using assms
  by (cases "data n k")
    (auto simp: Del_def step_def Lock_def Unlock_def split: if_splits)

lemma Get_alone:
  assumes "Get n k = Some (r, n')"
  shows "run \<lparr>shared = n, goroutines = [Get_call k], trace = tr\<rparr> [0, 0, 0]
         = \<lparr>shared = n', goroutines = [Get_ret r], trace = tr\<rparr>"
  using assms
  by (cases "data n k")
    (auto simp: Get_def step_def Lock_def Unlock_def split: if_splits)

section \<open>Goroutines: the heartbeat loop and its stop signal\<close>

subsection \<open>The configuration is never written\<close>

lemma cfg_exec: "cfg (shared (exec s i g)) = cfg (shared s)"
  by (cases g) (auto simp: Lock_def Unlock_def split: list.splits option.splits)

lemma cfg_step: "cfg (shared (step s i)) = cfg (shared s)"
  by (simp add: step_def cfg_exec)

lemma cfg_run: "cfg (shared (run s sched)) = cfg (shared s)"
  by (induction sched arbitrary: s) (simp_all add: cfg_step)

subsection \<open>Every step keeps the invariants\<close>

lemma events_of_Nil [simp]: "events_of i [] = []"
  by (simp add: events_of_def)

lemma events_of_snoc [simp]:
  "events_of i (tr @ [(j, e)]) = (if j = i then events_of i tr @ [e] else events_of i tr)"
  by (simp add: events_of_def)

lemma concat_replicate_Suc: "concat (replicate (Suc n) xs) = concat (replicate n xs) @ xs"
  by (induction n) simp_all

lemma loop_trace_select [simp]:
  "loop_trace c startHb_select ev \<longleftrightarrow> (\<exists>n. ev = concat (replicate n (iteration c)))"
  by (simp add: loop_trace_def)

lemma loop_trace_heartbeat [simp]:
  "loop_trace c startHb_heartbeat ev \<longleftrightarrow> (\<exists>n. ev = concat (replicate n (iteration c)) @ [Select []])"
  by (simp add: loop_trace_def)

lemma loop_trace_sleep [simp]:
  "loop_trace c startHb_sleep ev \<longleftrightarrow>
     (\<exists>n. ev = concat (replicate n (iteration c)) @
                    [Select [], Client_Heartbeat (Client c) (Router c) (Addr c)])"
  by (simp add: loop_trace_def)

lemma loop_trace_ret [simp]:
  "loop_trace c startHb_ret ev \<longleftrightarrow>
     (\<exists>n j q. ev = concat (replicate n (iteration c)) @ [Select (j # q)])"
  by (auto simp add: loop_trace_def)

lemma chan_ok_exec:
  assumes "chan_ok s" and "i < length (goroutines s)"
  shows "chan_ok (exec s i (goroutines s ! i))"
proof (cases "goroutines s ! i")
  case startHb_select
  then show ?thesis using assms
    by (cases "test (shared s)") (auto simp: chan_ok_def nth_list_update)
next
  case Stop_call
  then show ?thesis using assms
    by (auto simp: chan_ok_def nth_list_update)
qed (use assms in \<open>auto simp: chan_ok_def nth_list_update nth_append Lock_def Unlock_def split: option.splits\<close>)



lemma startHb_ok_exec:
  assumes ok: "startHb_ok s" and chan: "chan_ok s" and i: "i < length (goroutines s)"
  shows "startHb_ok (exec s i (goroutines s ! i))"
  unfolding startHb_ok_def
proof (intro allI)
  fix i'
  let ?s' = "exec s i (goroutines s ! i)"
  note at_i' = ok [unfolded startHb_ok_def, rule_format, of i']
  note at_i = ok [unfolded startHb_ok_def, rule_format, of i]
  show "if i' < length (goroutines ?s') \<and> is_startHb (goroutines ?s' ! i')
        then loop_trace (cfg (shared ?s')) (goroutines ?s' ! i') (events_of i' (trace ?s'))
        else events_of i' (trace ?s') = []"
  proof (cases "goroutines s ! i")
    case startHb_select
    show ?thesis
    proof (cases "test (shared s)")
      case Nil
      with startHb_select at_i at_i' i show ?thesis
        by (auto simp: nth_list_update split: if_splits)
    next
      case (Cons j q)
      with chan have j: "j < length (goroutines s)" "goroutines s ! j = Stop_blocked"
        by (auto simp: chan_ok_def)
      with startHb_select have ji: "j \<noteq> i"
        by auto
      from j have evj: "events_of j (trace s) = []"
        using ok [unfolded startHb_ok_def, rule_format, of j] by (auto split: if_splits)
      show ?thesis
        using at_i' at_i startHb_select Cons j ji evj i
        by (auto simp: nth_list_update split: if_splits)
    qed
  next
    case startHb_heartbeat
    with at_i at_i' i show ?thesis
      by (auto simp: nth_list_update split: if_splits)
  next
    case startHb_sleep
    have "\<And>n c. concat (replicate n (iteration c)) @
             [Select [], Client_Heartbeat (Client c) (Router c) (Addr c), Sleep (Heartbeat c)]
           = concat (replicate (Suc n) (iteration c))"
      unfolding concat_replicate_Suc by (simp add: iteration_def)
    then have "\<And>n c. \<exists>m. concat (replicate n (iteration c)) @
             [Select [], Client_Heartbeat (Client c) (Router c) (Addr c), Sleep (Heartbeat c)]
           = concat (replicate m (iteration c))"
      by blast
    with startHb_sleep at_i at_i' i show ?thesis
      by (auto simp: nth_list_update split: if_splits)
  next
    case Heartbeats_call
    have "\<exists>n. [] = concat (replicate n (iteration (cfg (shared s))))"
      by (rule exI [of _ 0]) simp
    with Heartbeats_call at_i at_i' i show ?thesis
      by (auto simp: nth_list_update nth_append split: if_splits)
  qed (use at_i at_i' i in \<open>auto simp: nth_list_update Lock_def Unlock_def split: option.splits if_splits\<close>)
qed


lemma Stop_ok_mono:
  assumes ok: "Stop_ok s"
    and len: "length (goroutines s) \<le> length (goroutines s')"
    and tr: "set (trace s) \<subseteq> set (trace s')"
    and hb: "\<And>i. i < length (goroutines s) \<Longrightarrow> goroutines s ! i = startHb_ret \<Longrightarrow>
               goroutines s' ! i = startHb_ret"
    and stop: "\<And>j. j < length (goroutines s') \<Longrightarrow> goroutines s' ! j = Stop_ret \<Longrightarrow>
               j < length (goroutines s) \<and> goroutines s ! j = Stop_ret"
  shows "Stop_ok s'"
  unfolding Stop_ok_def
proof (intro allI impI)
  fix j
  assume "j < length (goroutines s')" and "goroutines s' ! j = Stop_ret"
  then have "j < length (goroutines s)" and "goroutines s ! j = Stop_ret"
    using stop by blast+
  with ok obtain i q where i: "i < length (goroutines s)" "goroutines s ! i = startHb_ret"
      "(i, Select (j # q)) \<in> set (trace s)"
    unfolding Stop_ok_def by blast
  from i(1) len have "i < length (goroutines s')"
    by simp
  moreover from i(1,2) have "goroutines s' ! i = startHb_ret"
    by (rule hb)
  moreover from i(3) tr have "(i, Select (j # q)) \<in> set (trace s')"
    by blast
  ultimately show "\<exists>i < length (goroutines s'). \<exists>q.
      goroutines s' ! i = startHb_ret \<and> (i, Select (j # q)) \<in> set (trace s')"
    by blast
qed

lemma Stop_ok_exec:
  assumes ok: "Stop_ok s" and chan: "chan_ok s" and i: "i < length (goroutines s)"
  shows "Stop_ok (exec s i (goroutines s ! i))"
proof (cases "\<exists>j q. goroutines s ! i = startHb_select \<and> test (shared s) = j # q")
  case True
  then obtain j q where sel: "goroutines s ! i = startHb_select" and Cons: "test (shared s) = j # q"
    by blast
  with chan have j: "j < length (goroutines s)" "goroutines s ! j = Stop_blocked"
    by (auto simp: chan_ok_def)
  with sel have ji: "j \<noteq> i"
    by auto
  show ?thesis
    unfolding Stop_ok_def
  proof (intro allI impI)
    fix j'
    let ?s' = "exec s i (goroutines s ! i)"
    assume j': "j' < length (goroutines ?s')" and ret: "goroutines ?s' ! j' = Stop_ret"
    show "\<exists>i' < length (goroutines ?s'). \<exists>q'.
            goroutines ?s' ! i' = startHb_ret \<and> (i', Select (j' # q')) \<in> set (trace ?s')"
    proof (cases "j' = j")
      case True
      with sel Cons i j ji show ?thesis
        by (auto intro!: exI [of _ i] exI [of _ q])
    next
      case False
      with j' ret sel Cons i have "j' < length (goroutines s)" "goroutines s ! j' = Stop_ret"
        by (auto simp: nth_list_update split: if_splits)
      with ok obtain i' q' where "i' < length (goroutines s)" "goroutines s ! i' = startHb_ret"
          "(i', Select (j' # q')) \<in> set (trace s)"
        unfolding Stop_ok_def by blast
      with sel Cons j i show ?thesis
        by (auto simp: nth_list_update intro!: exI [of _ i'] exI [of _ q'])
    qed
  qed
next
  case False
  show ?thesis
  proof (rule Stop_ok_mono [OF ok])
    show "length (goroutines s) \<le> length (goroutines (exec s i (goroutines s ! i)))"
      by (cases "goroutines s ! i") (auto simp: Lock_def split: list.splits option.splits)
    show "set (trace s) \<subseteq> set (trace (exec s i (goroutines s ! i)))"
      by (cases "goroutines s ! i") (auto simp: Lock_def split: list.splits option.splits)
    show "goroutines (exec s i (goroutines s ! i)) ! i' = startHb_ret"
      if "i' < length (goroutines s)" "goroutines s ! i' = startHb_ret" for i'
      using that i False
      by (cases "goroutines s ! i")
        (auto simp: Lock_def nth_list_update nth_append split: list.splits option.splits)
    show "j < length (goroutines s) \<and> goroutines s ! j = Stop_ret"
      if "j < length (goroutines (exec s i (goroutines s ! i)))"
        "goroutines (exec s i (goroutines s ! i)) ! j = Stop_ret" for j
      using that i False
      by (cases "goroutines s ! i")
        (auto simp: Lock_def nth_list_update nth_append split: list.splits option.splits if_splits)
  qed
qed


lemma entry_not_startHb: "entry g \<Longrightarrow> \<not> is_startHb g"
  by (cases g) simp_all

lemma chan_ok_start: "chan_ok (start c gs)"
  by (simp add: chan_ok_def start_def New_def)

lemma startHb_ok_start: "list_all entry gs \<Longrightarrow> startHb_ok (start c gs)"
  by (auto simp: startHb_ok_def start_def list_all_length entry_not_startHb)

lemma Stop_ok_start: "list_all entry gs \<Longrightarrow> Stop_ok (start c gs)"
  by (auto simp: Stop_ok_def start_def list_all_length)

lemma chan_ok_step: "chan_ok s \<Longrightarrow> chan_ok (step s i)"
  by (simp add: step_def chan_ok_exec)

lemma chan_ok_run: "chan_ok s \<Longrightarrow> chan_ok (run s sched)"
  by (induction sched arbitrary: s) (simp_all add: chan_ok_step)

lemma startHb_ok_step: "startHb_ok s \<Longrightarrow> chan_ok s \<Longrightarrow> startHb_ok (step s i)"
  by (simp add: step_def startHb_ok_exec)

lemma startHb_ok_run: "startHb_ok s \<Longrightarrow> chan_ok s \<Longrightarrow> startHb_ok (run s sched)"
  by (induction sched arbitrary: s) (simp_all add: startHb_ok_step chan_ok_step)

lemma Stop_ok_step: "Stop_ok s \<Longrightarrow> chan_ok s \<Longrightarrow> Stop_ok (step s i)"
  by (simp add: step_def Stop_ok_exec)

lemma Stop_ok_run: "Stop_ok s \<Longrightarrow> chan_ok s \<Longrightarrow> Stop_ok (run s sched)"
  by (induction sched arbitrary: s) (simp_all add: Stop_ok_step chan_ok_step)

lemma run_append: "run s (xs @ ys) = run (run s xs) ys"
  by (induction xs arbitrary: s) simp_all

lemma startHb_ret_step:
  assumes chan: "chan_ok s" and i: "i < length (goroutines s)" and ret: "goroutines s ! i = startHb_ret"
  shows "i < length (goroutines (step s i')) \<and> goroutines (step s i') ! i = startHb_ret \<and>
         events_of i (trace (step s i')) = events_of i (trace s)"
proof (cases "i' < length (goroutines s)")
  case False
  with i ret show ?thesis
    by (simp add: step_def)
next
  case True
  have ne: "i' \<noteq> i" if "goroutines s ! i' \<noteq> startHb_ret"
    using that ret by auto
  have q: "j \<noteq> i" if "test (shared s) = j # q" for j q
    using that chan ret by (auto simp: chan_ok_def)
  show ?thesis
    using True i ret ne q
    by (cases "goroutines s ! i'")
      (auto simp: step_def Lock_def nth_list_update nth_append split: option.splits list.splits)
qed

lemma startHb_ret_run:
  assumes "chan_ok s" and "i < length (goroutines s)" and "goroutines s ! i = startHb_ret"
  shows "i < length (goroutines (run s sched)) \<and> goroutines (run s sched) ! i = startHb_ret \<and>
         events_of i (trace (run s sched)) = events_of i (trace s)"
  using assms
proof (induction sched arbitrary: s)
  case Nil
  then show ?case by simp
next
  case (Cons i' sched)
  from startHb_ret_step [OF Cons.prems, of i'] chan_ok_step [OF Cons.prems(1), of i']
  show ?case
    using Cons.IH [of "step s i'"] by simp
qed

subsection \<open>The loop of \<^verbatim>\<open>startHb\<close>\<close>

text \<open>
  Claim C5. In every state a program can reach, a goroutine running \<^verbatim>\<open>startHb\<close> has made
  exactly these events: \<open>n\<close> full iterations, each a \<^verbatim>\<open>select\<close> that found no sender
  waiting on \<open>test\<close>, then the call of the client's \<open>Heartbeat\<close> with the router address and
  the Node's own address, then the sleep for the configured interval; followed by the part
  of the current iteration that lies behind it, which starts with the \<^verbatim>\<open>select\<close>. So each
  call of the client comes right after a check that found no stop signal waiting, and
  right before the sleep. A \<^verbatim>\<open>select\<close> that found a stop signal is the last event of the
  goroutine: it has returned, and whatever is scheduled afterwards it stays returned and
  makes no further event.
\<close>

theorem startHb_checks_stop_then_heartbeat_then_sleep:
  assumes "list_all entry gs" and "s = run (start c gs) sched"
    and "i < length (goroutines s)" and "is_startHb (goroutines s ! i)"
  shows "(\<exists>n. (goroutines s ! i = startHb_select \<and>
                events_of i (trace s) = concat (replicate n (iteration c)))
            \<or> (goroutines s ! i = startHb_heartbeat \<and>
                events_of i (trace s) = concat (replicate n (iteration c)) @ [Select []])
            \<or> (goroutines s ! i = startHb_sleep \<and>
                events_of i (trace s) = concat (replicate n (iteration c)) @
                  [Select [], Client_Heartbeat (Client c) (Router c) (Addr c)])
            \<or> (goroutines s ! i = startHb_ret \<and>
                (\<exists>j q. events_of i (trace s) = concat (replicate n (iteration c)) @ [Select (j # q)])))
       \<and> (goroutines s ! i = startHb_ret \<longrightarrow>
            (\<forall>sched'. goroutines (run s sched') ! i = startHb_ret \<and>
                       events_of i (trace (run s sched')) = events_of i (trace s)))"
proof
  have "startHb_ok s"
    unfolding assms(2) using assms(1) by (intro startHb_ok_run startHb_ok_start chan_ok_start)
  moreover have "cfg (shared s) = c"
    unfolding assms(2) by (simp add: cfg_run start_def New_def)
  ultimately have "loop_trace c (goroutines s ! i) (events_of i (trace s))"
    using assms(3,4) unfolding startHb_ok_def by (auto split: if_splits)
  then show "\<exists>n. (goroutines s ! i = startHb_select \<and>
                events_of i (trace s) = concat (replicate n (iteration c)))
            \<or> (goroutines s ! i = startHb_heartbeat \<and>
                events_of i (trace s) = concat (replicate n (iteration c)) @ [Select []])
            \<or> (goroutines s ! i = startHb_sleep \<and>
                events_of i (trace s) = concat (replicate n (iteration c)) @
                  [Select [], Client_Heartbeat (Client c) (Router c) (Addr c)])
            \<or> (goroutines s ! i = startHb_ret \<and>
                (\<exists>j q. events_of i (trace s) = concat (replicate n (iteration c)) @ [Select (j # q)]))"
    unfolding loop_trace_def .
next
  have "chan_ok s"
    unfolding assms(2) by (intro chan_ok_run chan_ok_start)
  then show "goroutines s ! i = startHb_ret \<longrightarrow>
            (\<forall>sched'. goroutines (run s sched') ! i = startHb_ret \<and>
                       events_of i (trace (run s sched')) = events_of i (trace s))"
    using startHb_ret_run [of s i] assms(3) by blast
qed


theorem startHb_checks_stop_then_heartbeat_then_sleep_witness:
  "list_all entry [Heartbeats_call, Stop_call :: nat goroutine]
   \<and> 2 < length (goroutines (run (start \<lparr>Addr = 1 :: nat, Router = 2, Heartbeat = 1000, Client = ()\<rparr>
                 [Heartbeats_call, Stop_call :: nat goroutine]) [0, 2, 2, 2, 2, 1, 2, 2, 2]))
   \<and> goroutines (run (start \<lparr>Addr = 1 :: nat, Router = 2, Heartbeat = 1000, Client = ()\<rparr>
                 [Heartbeats_call, Stop_call :: nat goroutine]) [0, 2, 2, 2, 2, 1, 2, 2, 2]) ! 2
       = startHb_ret
   \<and> events_of 2 (trace (run (start \<lparr>Addr = 1 :: nat, Router = 2, Heartbeat = 1000, Client = ()\<rparr>
                 [Heartbeats_call, Stop_call :: nat goroutine]) [0, 2, 2, 2, 2, 1, 2, 2, 2]))
       = [Select [], Client_Heartbeat () 2 1, Sleep 1000,
          Select [], Client_Heartbeat () 2 1, Sleep 1000,
          Select [1]]
   \<and> events_of 2 (trace (run (run (start \<lparr>Addr = 1 :: nat, Router = 2, Heartbeat = 1000, Client = ()\<rparr>
                 [Heartbeats_call, Stop_call :: nat goroutine]) [0, 2, 2, 2, 2, 1, 2, 2, 2]) [2, 1, 2, 0]))
       = [Select [], Client_Heartbeat () 2 1, Sleep 1000,
          Select [], Client_Heartbeat () 2 1, Sleep 1000,
          Select [1]]"
proof -
  let ?c = "\<lparr>Addr = 1 :: nat, Router = 2 :: nat, Heartbeat = 1000, Client = ()\<rparr>"
  let ?gs = "[Heartbeats_call, Stop_call :: nat goroutine]"
  let ?s = "run (start ?c ?gs) [0, 2, 2, 2, 2, 1, 2, 2, 2]"
  have gs: "list_all entry ?gs"
    by simp
  have s: "?s = \<lparr>shared = New ?c,
                 goroutines = [Heartbeats_ret, Stop_ret, startHb_ret],
                 trace = [(2, Select []), (2, Client_Heartbeat () 2 1), (2, Sleep 1000),
                          (2, Select []), (2, Client_Heartbeat () 2 1), (2, Sleep 1000),
                          (2, Select [1])]\<rparr>"
    by (simp add: start_def New_def step_def)
  have i: "2 < length (goroutines ?s)" and hb: "is_startHb (goroutines ?s ! 2)"
    and ret: "goroutines ?s ! 2 = startHb_ret"
    and ev: "events_of 2 (trace ?s) =
       [Select [], Client_Heartbeat () 2 1, Sleep 1000,
        Select [], Client_Heartbeat () 2 1, Sleep 1000, Select [1]]"
    unfolding s by (simp_all add: events_of_def)
  from startHb_checks_stop_then_heartbeat_then_sleep [OF gs refl i hb] ret
  have "events_of 2 (trace (run ?s [2, 1, 2, 0])) = events_of 2 (trace ?s)"
    by blast
  with gs i ret ev show ?thesis
    by simp
qed


subsection \<open>\<^verbatim>\<open>Stop\<close>\<close>

lemma no_heartbeats_nth:
  "no_heartbeats gs \<longleftrightarrow> (\<forall>j < length gs. \<not> hb_active (gs ! j) \<and> gs ! j \<noteq> Heartbeats_call)"
  by (simp add: no_heartbeats_def all_set_conv_all_nth)

lemma no_heartbeats_exec:
  assumes "no_heartbeats (goroutines s)" and "i < length (goroutines s)"
  shows "no_heartbeats (goroutines (exec s i (goroutines s ! i))) \<and>
         length (goroutines (exec s i (goroutines s ! i))) = length (goroutines s) \<and>
         (\<forall>j < length (goroutines s).
            goroutines s ! j = Stop_call \<or> goroutines s ! j = Stop_blocked \<longrightarrow>
            goroutines (exec s i (goroutines s ! i)) ! j = Stop_call \<or>
            goroutines (exec s i (goroutines s ! i)) ! j = Stop_blocked)"
  using assms unfolding no_heartbeats_nth
  by (cases "goroutines s ! i")
    (auto simp: Lock_def nth_list_update split: option.splits)

lemma no_heartbeats_step:
  assumes "no_heartbeats (goroutines s)"
  shows "no_heartbeats (goroutines (step s i)) \<and>
         length (goroutines (step s i)) = length (goroutines s) \<and>
         (\<forall>j < length (goroutines s).
            goroutines s ! j = Stop_call \<or> goroutines s ! j = Stop_blocked \<longrightarrow>
            goroutines (step s i) ! j = Stop_call \<or> goroutines (step s i) ! j = Stop_blocked)"
  using no_heartbeats_exec [OF assms, of i] assms by (simp add: step_def)

lemma no_heartbeats_run:
  assumes "no_heartbeats (goroutines s)" and "j < length (goroutines s)"
    and "goroutines s ! j = Stop_call \<or> goroutines s ! j = Stop_blocked"
  shows "goroutines (run s sched) ! j = Stop_call \<or> goroutines (run s sched) ! j = Stop_blocked"
  using assms
proof (induction sched arbitrary: s)
  case Nil
  then show ?case by simp
next
  case (Cons i sched)
  from no_heartbeats_step [OF Cons.prems(1), of i] Cons.prems(2,3)
  have "no_heartbeats (goroutines (step s i))" "j < length (goroutines (step s i))"
    "goroutines (step s i) ! j = Stop_call \<or> goroutines (step s i) ! j = Stop_blocked"
    by auto
  then show ?case
    using Cons.IH [of "step s i"] by simp
qed

text \<open>
  Claim C6, amended. In every state a program can reach, a \<^verbatim>\<open>Stop\<close> that has returned
  has had its signal received: the trace holds a \<^verbatim>\<open>select\<close> of a goroutine running
  \<^verbatim>\<open>startHb\<close> that found this \<^verbatim>\<open>Stop\<close> first in the queue of the channel, and that
  goroutine has returned. And when no goroutine is in the loop of \<^verbatim>\<open>startHb\<close> and no call
  of \<^verbatim>\<open>Heartbeats\<close> is left to start one, a \<^verbatim>\<open>Stop\<close> that is called or already blocked
  in its send has not returned after any further schedule, however long. The condition on
  \<^verbatim>\<open>Heartbeats\<close> is needed: see the theorem after the next.
\<close>

theorem Stop_returns_only_when_received:
  assumes "list_all entry gs" and "s = run (start c gs) sched"
  shows "(\<forall>j < length (goroutines s). goroutines s ! j = Stop_ret \<longrightarrow>
           (\<exists>i < length (goroutines s). \<exists>q.
              goroutines s ! i = startHb_ret \<and> (i, Select (j # q)) \<in> set (trace s)))
       \<and> ((\<forall>g \<in> set (goroutines s). \<not> hb_active g \<and> g \<noteq> Heartbeats_call) \<longrightarrow>
           (\<forall>sched'. \<forall>j < length (goroutines s).
              goroutines s ! j = Stop_call \<or> goroutines s ! j = Stop_blocked \<longrightarrow>
              goroutines (run s sched') ! j = Stop_call \<or>
              goroutines (run s sched') ! j = Stop_blocked))"
proof
  have "Stop_ok s"
    unfolding assms(2) using assms(1) by (intro Stop_ok_run Stop_ok_start chan_ok_start)
  then show "\<forall>j < length (goroutines s). goroutines s ! j = Stop_ret \<longrightarrow>
           (\<exists>i < length (goroutines s). \<exists>q.
              goroutines s ! i = startHb_ret \<and> (i, Select (j # q)) \<in> set (trace s))"
    unfolding Stop_ok_def .
next
  show "(\<forall>g \<in> set (goroutines s). \<not> hb_active g \<and> g \<noteq> Heartbeats_call) \<longrightarrow>
           (\<forall>sched'. \<forall>j < length (goroutines s).
              goroutines s ! j = Stop_call \<or> goroutines s ! j = Stop_blocked \<longrightarrow>
              goroutines (run s sched') ! j = Stop_call \<or>
              goroutines (run s sched') ! j = Stop_blocked)"
    using no_heartbeats_run [of s] unfolding no_heartbeats_def by blast
qed


theorem Stop_returns_only_when_received_witness:
  "list_all entry [Heartbeats_call, Stop_call :: nat goroutine]
   \<and> goroutines (run (start \<lparr>Addr = 1 :: nat, Router = 2, Heartbeat = 1000, Client = ()\<rparr>
                 [Heartbeats_call, Stop_call :: nat goroutine]) [0, 1, 2])
       = [Heartbeats_ret, Stop_ret, startHb_ret]
   \<and> (\<exists>i q. (i, Select (1 # q))
         \<in> set (trace (run (start \<lparr>Addr = 1 :: nat, Router = 2, Heartbeat = 1000, Client = ()\<rparr>
                 [Heartbeats_call, Stop_call :: nat goroutine]) [0, 1, 2])))
   \<and> list_all entry [Stop_call, Put_call (7 :: nat) [1]]
   \<and> goroutines (run (start \<lparr>Addr = 1 :: nat, Router = 2, Heartbeat = 1000, Client = ()\<rparr>
                 [Stop_call, Put_call (7 :: nat) [1]]) [0])
       = [Stop_blocked, Put_call 7 [1]]
   \<and> goroutines (run (run (start \<lparr>Addr = 1 :: nat, Router = 2, Heartbeat = 1000, Client = ()\<rparr>
                 [Stop_call, Put_call (7 :: nat) [1]]) [0]) [0, 1, 0, 1, 1, 1, 0]) ! 0
       = Stop_blocked"
proof -
  let ?c = "\<lparr>Addr = 1 :: nat, Router = 2 :: nat, Heartbeat = 1000, Client = ()\<rparr>"
  let ?gs = "[Heartbeats_call, Stop_call :: nat goroutine]"
  let ?s = "run (start ?c ?gs) [0, 1, 2]"
  let ?gs' = "[Stop_call, Put_call (7 :: nat) [1]]"
  let ?s' = "run (start ?c ?gs') [0]"
  have gs: "list_all entry ?gs" and gs': "list_all entry ?gs'"
    by simp_all
  have s: "goroutines ?s = [Heartbeats_ret, Stop_ret, startHb_ret]"
    and s': "goroutines ?s' = [Stop_blocked, Put_call 7 [1]]"
    by (simp_all add: start_def New_def step_def)
  have "1 < length (goroutines ?s)" and "goroutines ?s ! 1 = Stop_ret"
    unfolding s by simp_all
  with Stop_returns_only_when_received [OF gs refl, of ?c "[0, 1, 2]"]
  have 1: "\<exists>i q. (i, Select (1 # q)) \<in> set (trace ?s)"
    by blast
  have "\<forall>g \<in> set (goroutines ?s'). \<not> hb_active g \<and> g \<noteq> Heartbeats_call"
    and "0 < length (goroutines ?s')" and "goroutines ?s' ! 0 = Stop_blocked"
    unfolding s' by simp_all
  with Stop_returns_only_when_received [OF gs' refl, of ?c "[0]"]
  have "goroutines (run ?s' [0, 1, 0, 1, 1, 1, 0]) ! 0 = Stop_call \<or>
        goroutines (run ?s' [0, 1, 0, 1, 1, 1, 0]) ! 0 = Stop_blocked"
    by blast
  moreover have "goroutines (run ?s' [0, 1, 0, 1, 1, 1, 0]) ! 0 \<noteq> Stop_call"
    by (simp add: start_def New_def step_def Lock_def Unlock_def)
  ultimately have 2: "goroutines (run ?s' [0, 1, 0, 1, 1, 1, 0]) ! 0 = Stop_blocked"
    by blast
  from gs s 1 gs' s' 2 show ?thesis
    by blast
qed

text \<open>
  Claim C6 as first stated, without the condition on \<^verbatim>\<open>Heartbeats\<close>, fails. \<^verbatim>\<open>Stop\<close> is
  called on a new Node, where no goroutine is in the loop of \<^verbatim>\<open>startHb\<close>, and blocks in
  its send. A call of \<^verbatim>\<open>Heartbeats\<close> then starts the loop, whose first \<^verbatim>\<open>select\<close> finds
  the sender waiting and receives: \<^verbatim>\<open>Stop\<close> returns. The send on the unbuffered channel
  waits for a receiver, whenever that one comes.
\<close>

theorem Stop_returns_after_later_Heartbeats:
  "goroutines (run (start \<lparr>Addr = 1 :: nat, Router = 2 :: nat, Heartbeat = 1000, Client = ()\<rparr>
                 [Stop_call, Heartbeats_call :: nat goroutine]) [0])
     = [Stop_blocked, Heartbeats_call]
   \<and> \<not> hb_active (Stop_blocked :: nat goroutine)
   \<and> \<not> hb_active (Heartbeats_call :: nat goroutine)
   \<and> goroutines (run (run (start \<lparr>Addr = 1 :: nat, Router = 2 :: nat, Heartbeat = 1000, Client = ()\<rparr>
                 [Stop_call, Heartbeats_call :: nat goroutine]) [0]) [1, 2])
     = [Stop_ret, Heartbeats_ret, startHb_ret]"
  by (simp add: start_def New_def step_def)

subsection \<open>The configuration\<close>

text \<open>
  Claim C8. \<^verbatim>\<open>New\<close> stores the configuration it is given, and no operation writes it:
  the Node returned by \<open>Put\<close>, \<open>Del\<close> or \<open>Get\<close> has the \<open>cfg\<close> of the Node given, and so
  has the Node after any schedule of any goroutines, which covers \<^verbatim>\<open>Heartbeats\<close>,
  \<^verbatim>\<open>startHb\<close> and \<^verbatim>\<open>Stop\<close> as well as the table operations run concurrently.
\<close>

theorem cfg_immutable:
  "cfg (New c :: ('k, 'a, 'c) Node) = c
   \<and> (\<forall>r n'. Put (n :: ('k, 'a, 'c) Node) k d = Some (r, n') \<longrightarrow> cfg n' = cfg n)
   \<and> (\<forall>r n'. Del n k = Some (r, n') \<longrightarrow> cfg n' = cfg n)
   \<and> (\<forall>r n'. Get n k = Some (r, n') \<longrightarrow> cfg n' = cfg n)
   \<and> cfg (shared (run (s :: ('k, 'a, 'c) system) sched)) = cfg (shared s)"
  by (auto simp: New_def Put_def Del_def Get_def Lock_def Unlock_def cfg_run
      split: if_splits option.splits)

theorem cfg_immutable_witness:
  "(\<exists>n'. Put (New \<lparr>Addr = 1 :: nat, Router = 2, Heartbeat = 1000, Client = ()\<rparr>
                :: (nat, nat, unit) Node) 7 [1] = Some (None, n')
        \<and> cfg n' = \<lparr>Addr = 1, Router = 2, Heartbeat = 1000, Client = ()\<rparr>
        \<and> (\<exists>n''. Get n' 7 = Some (Inr [1], n'')
              \<and> cfg n'' = \<lparr>Addr = 1, Router = 2, Heartbeat = 1000, Client = ()\<rparr>)
        \<and> (\<exists>n''. Del n' 7 = Some (None, n'')
              \<and> cfg n'' = \<lparr>Addr = 1, Router = 2, Heartbeat = 1000, Client = ()\<rparr>))
   \<and> goroutines (run (start \<lparr>Addr = 1 :: nat, Router = 2, Heartbeat = 1000, Client = ()\<rparr>
           [Heartbeats_call, Stop_call, Put_call (7 :: nat) [1], Get_call 7, Del_call 7])
         [0, 5, 5, 5, 1, 5, 2, 3, 2, 2, 2, 3, 3, 3, 4, 4, 4, 4])
       = [Heartbeats_ret, Stop_ret, Put_ret None, Get_ret (Inr [1]), Del_ret None, startHb_ret]
   \<and> cfg (shared (run (start \<lparr>Addr = 1 :: nat, Router = 2, Heartbeat = 1000, Client = ()\<rparr>
           [Heartbeats_call, Stop_call, Put_call (7 :: nat) [1], Get_call 7, Del_call 7])
         [0, 5, 5, 5, 1, 5, 2, 3, 2, 2, 2, 3, 3, 3, 4, 4, 4, 4]))
       = \<lparr>Addr = 1, Router = 2, Heartbeat = 1000, Client = ()\<rparr>"
proof -
  let ?c = "\<lparr>Addr = 1 :: nat, Router = 2 :: nat, Heartbeat = 1000, Client = ()\<rparr>"
  let ?n = "New ?c :: (nat, nat, unit) Node"
  let ?n' = "?n\<lparr>data := (data ?n)(7 \<mapsto> [1])\<rparr>"
  let ?s = "start ?c [Heartbeats_call, Stop_call, Put_call (7 :: nat) [1], Get_call 7, Del_call 7]"
  let ?sched = "[0, 5, 5, 5, 1, 5, 2, 3, 2, 2, 2, 3, 3, 3, 4, 4, 4, 4] :: nat list"
  have new: "cfg ?n = ?c" and start: "cfg (shared ?s) = ?c"
    by (simp_all add: New_def start_def)
  have put: "Put ?n 7 [1] = Some (None, ?n')"
    by (simp add: Put_def Lock_def Unlock_def New_def)
  have get: "Get ?n' 7 = Some (Inr [1], ?n')"
    by (simp add: Get_def Lock_def Unlock_def New_def)
  have del: "Del ?n' 7 = Some (None, ?n'\<lparr>data := (data ?n')(7 := None)\<rparr>)"
    by (simp add: Del_def Lock_def Unlock_def New_def)
  from cfg_immutable [of ?c ?n 7 "[1]"] put new have 1: "cfg ?n' = ?c"
    by simp
  from cfg_immutable [of ?c ?n' 7] get 1 have 2: "\<exists>n''. Get ?n' 7 = Some (Inr [1], n'') \<and> cfg n'' = ?c"
    by blast
  from cfg_immutable [of ?c ?n' 7] del 1 have 3: "\<exists>n''. Del ?n' 7 = Some (None, n'') \<and> cfg n'' = ?c"
    by simp
  have 4: "goroutines (run ?s ?sched)
      = [Heartbeats_ret, Stop_ret, Put_ret None, Get_ret (Inr [1]), Del_ret None, startHb_ret]"
    by (simp add: start_def New_def step_def Lock_def Unlock_def)
  from cfg_immutable [of ?c ?n 7 "[1]" ?s ?sched] start have 5: "cfg (shared (run ?s ?sched)) = ?c"
    by simp
  from put 1 2 3 4 5 show ?thesis
    by blast
qed


section \<open>Goroutines: concurrent calls of \<^verbatim>\<open>Put\<close> for one key\<close>

lemma Put_race_init:
  assumes "goroutines s = map (Put_call k) ps" and "\<not> lock (shared s)" and "data (shared s) k = None"
  shows "Put_race k ps s"
  using assms by (simp add: Put_race_def mutex_ok_def before_def)

lemma before_not_holds: "before k d g \<Longrightarrow> \<not> holds g \<Longrightarrow> g = Put_call k d"
  by (auto simp: before_def)

lemma mutex_holder:
  assumes "mutex_ok s" and "i < length (goroutines s)" and "holds (goroutines s ! i)"
  shows "lock (shared s)" and "\<And>j. j < length (goroutines s) \<Longrightarrow> j \<noteq> i \<Longrightarrow> \<not> holds (goroutines s ! j)"
proof -
  from assms show lk: "lock (shared s)"
    by (auto simp: mutex_ok_def split: if_splits)
  with assms(1) obtain h where h: "h < length (goroutines s)" "holds (goroutines s ! h)"
      "\<forall>j < length (goroutines s). j \<noteq> h \<longrightarrow> \<not> holds (goroutines s ! j)"
    by (auto simp: mutex_ok_def)
  with assms(2,3) have "h = i"
    by blast
  with h(3) show "\<And>j. j < length (goroutines s) \<Longrightarrow> j \<noteq> i \<Longrightarrow> \<not> holds (goroutines s ! j)"
    by blast
qed

lemma Put_race_step:
  assumes inv: "Put_race k ps s"
  shows "Put_race k ps (step s i)"
proof (cases "i < length (goroutines s)")
  case False
  with inv show ?thesis by (simp add: step_def)
next
  case i: True
  from inv have len: "length (goroutines s) = length ps" and mutex: "mutex_ok s"
    by (simp_all add: Put_race_def)
  show ?thesis
  proof (cases "data (shared s) k")
    case None
    with inv have all: "\<forall>j < length ps. before k (ps ! j) (goroutines s ! j)"
      by (simp add: Put_race_def)
    with i len have "before k (ps ! i) (goroutines s ! i)"
      by simp
    then consider (call) "goroutines s ! i = Put_call k (ps ! i)"
      | (locked) "goroutines s ! i = Put_locked k (ps ! i)"
      | (store) "goroutines s ! i = Put_store k (ps ! i)"
      by (auto simp: before_def)
    then show ?thesis
    proof cases
      case call
      show ?thesis
      proof (cases "lock (shared s)")
        case True
        with call i inv show ?thesis by (simp add: step_def Lock_def)
      next
        case False
        with mutex have "\<forall>j < length (goroutines s). \<not> holds (goroutines s ! j)"
          by (simp add: mutex_ok_def)
        with call i len None all False show ?thesis
          by (auto simp: step_def Lock_def Put_race_def mutex_ok_def nth_list_update before_def
              intro!: exI [of _ i])
      qed
    next
      case locked
      with i have hi: "holds (goroutines s ! i)"
        by simp
      note lk = mutex_holder(1) [OF mutex i hi] and excl = mutex_holder(2) [OF mutex i hi]
      from locked i len None all lk excl show ?thesis
        by (auto simp: step_def Put_race_def mutex_ok_def nth_list_update before_def
            intro!: exI [of _ i])
    next
      case store
      with i have hi: "holds (goroutines s ! i)"
        by simp
      note lk = mutex_holder(1) [OF mutex i hi] and excl = mutex_holder(2) [OF mutex i hi]
      have others: "goroutines s ! j = Put_call k (ps ! j)" if "j < length ps" "j \<noteq> i" for j
        using that all excl [of j] len by (intro before_not_holds) auto
      from store i len None lk excl others show ?thesis
        by (auto simp: step_def Put_race_def mutex_ok_def nth_list_update winner_def loser_def
            intro!: exI [of _ i])
    qed
  next
    case (Some v)
    with inv obtain w where w: "w < length ps" "v = ps ! w" "winner (goroutines s ! w)"
        "\<forall>j < length ps. j \<noteq> w \<longrightarrow> loser k (ps ! j) (goroutines s ! j)"
      by (auto simp: Put_race_def)
    have acquire: ?thesis
      if call: "goroutines s ! i = Put_call k (ps ! i)" and role: "i = w \<Longrightarrow> False"
    proof (cases "lock (shared s)")
      case True
      with call i inv show ?thesis by (simp add: step_def Lock_def)
    next
      case False
      with mutex have "\<forall>j < length (goroutines s). \<not> holds (goroutines s ! j)"
        by (simp add: mutex_ok_def)
      with call i len Some w role False show ?thesis
        by (auto simp: step_def Lock_def Put_race_def mutex_ok_def nth_list_update loser_def
            intro!: exI [of _ i] exI [of _ w])
    qed
    have release: ?thesis
      if deferred: "goroutines s ! i = Put_deferred r"
        and role: "(i = w \<and> r = None) \<or> (i \<noteq> w \<and> r = Some ErrRecordExists)" for r
    proof -
      from deferred i have hi: "holds (goroutines s ! i)"
        by simp
      note lk = mutex_holder(1) [OF mutex i hi] and excl = mutex_holder(2) [OF mutex i hi]
      from deferred i len Some w role lk excl show ?thesis
        by (auto simp: step_def Unlock_def Put_race_def mutex_ok_def nth_list_update loser_def
            winner_def intro!: exI [of _ w])
    qed
    show ?thesis
    proof (cases "i = w")
      case True
      with w(3) consider "goroutines s ! i = Put_deferred None" | "goroutines s ! i = Put_ret None"
        by (auto simp: winner_def)
      then show ?thesis
      proof cases
        case 1
        with True show ?thesis by (intro release) auto
      next
        case 2
        with i inv show ?thesis by (simp add: step_def)
      qed
    next
      case False
      with w(4) i len have "loser k (ps ! i) (goroutines s ! i)"
        by simp
      then consider (call) "goroutines s ! i = Put_call k (ps ! i)"
        | (locked) "goroutines s ! i = Put_locked k (ps ! i)"
        | (deferred) "goroutines s ! i = Put_deferred (Some ErrRecordExists)"
        | (ret) "goroutines s ! i = Put_ret (Some ErrRecordExists)"
        by (auto simp: loser_def)
      then show ?thesis
      proof cases
        case call
        with False show ?thesis by (intro acquire) auto
      next
        case locked
        with i have hi: "holds (goroutines s ! i)"
          by simp
        note lk = mutex_holder(1) [OF mutex i hi] and excl = mutex_holder(2) [OF mutex i hi]
        from locked i len Some w False lk excl show ?thesis
          by (auto simp: step_def Put_race_def mutex_ok_def nth_list_update loser_def
              intro!: exI [of _ i] exI [of _ w])
      next
        case deferred
        with False show ?thesis by (intro release) auto
      next
        case ret
        with i inv show ?thesis by (simp add: step_def)
      qed
    qed
  qed
qed

lemma Put_race_run: "Put_race k ps s \<Longrightarrow> Put_race k ps (run s sched)"
  by (induction sched arbitrary: s) (simp_all add: Put_race_step)


lemma Put_race_finished:
  assumes inv: "Put_race k ps s" and ne: "ps \<noteq> []"
    and fin: "\<forall>j < length ps. \<exists>r. goroutines s ! j = Put_ret r"
  shows "\<exists>w < length ps. goroutines s ! w = Put_ret None \<and>
           (\<forall>j < length ps. j \<noteq> w \<longrightarrow> goroutines s ! j = Put_ret (Some ErrRecordExists)) \<and>
           data (shared s) k = Some (ps ! w)"
proof (cases "data (shared s) k")
  case None
  with inv have "before k (ps ! 0) (goroutines s ! 0)"
    using ne by (simp add: Put_race_def)
  moreover from fin ne obtain r where "goroutines s ! 0 = Put_ret r"
    by auto
  ultimately show ?thesis
    by (simp add: before_def)
next
  case (Some v)
  with inv obtain w where w: "w < length ps" "v = ps ! w" "winner (goroutines s ! w)"
      "\<forall>j < length ps. j \<noteq> w \<longrightarrow> loser k (ps ! j) (goroutines s ! j)"
    by (auto simp: Put_race_def)
  from w(1,3) fin have "goroutines s ! w = Put_ret None"
    by (auto simp: winner_def)
  moreover have "goroutines s ! j = Put_ret (Some ErrRecordExists)"
    if "j < length ps" "j \<noteq> w" for j
  proof -
    from that w(4) have "loser k (ps ! j) (goroutines s ! j)"
      by simp
    moreover from that fin obtain r where "goroutines s ! j = Put_ret r"
      by auto
    ultimately show ?thesis
      by (auto simp: loser_def)
  qed
  ultimately show ?thesis
    using w(1,2) Some by blast
qed

lemma sum_list_map_update_less:
  "i < length xs \<Longrightarrow> f x < f (xs ! i) \<Longrightarrow>
     sum_list (map f (xs[i := x])) < (sum_list (map f xs) :: nat)"
proof (induction xs arbitrary: i)
  case Nil
  then show ?case by simp
next
  case (Cons a xs)
  then show ?case
    by (cases i) (simp_all add: add_less_mono)
qed

lemma Put_left_update:
  assumes "i < length (goroutines s)" and "goroutines s' = (goroutines s)[i := g]"
    and "Put_left g < Put_left (goroutines s ! i)"
  shows "sum_list (map Put_left (goroutines s')) < sum_list (map Put_left (goroutines s))"
  unfolding assms(2) using assms(1,3) by (rule sum_list_map_update_less)

lemma Put_race_progress:
  assumes inv: "Put_race k ps s"
    and unfinished: "\<not> (\<forall>j < length ps. \<exists>r. goroutines s ! j = Put_ret r)"
  shows "\<exists>i. sum_list (map Put_left (goroutines (step s i)))
               < sum_list (map Put_left (goroutines s))"
proof -
  from inv have len: "length (goroutines s) = length ps" and mutex: "mutex_ok s"
    by (simp_all add: Put_race_def)
  have place: "before k (ps ! j) (goroutines s ! j) \<or> loser k (ps ! j) (goroutines s ! j) \<or>
      winner (goroutines s ! j)" if "j < length ps" for j
  proof (cases "data (shared s) k")
    case None
    with inv that show ?thesis by (simp add: Put_race_def)
  next
    case (Some v)
    with inv obtain w where "winner (goroutines s ! w)"
        "\<forall>j < length ps. j \<noteq> w \<longrightarrow> loser k (ps ! j) (goroutines s ! j)"
      by (auto simp: Put_race_def)
    with that show ?thesis by (cases "j = w") simp_all
  qed
  show ?thesis
  proof (cases "lock (shared s)")
    case True
    with mutex obtain h where h: "h < length (goroutines s)" "holds (goroutines s ! h)"
      by (auto simp: mutex_ok_def)
    from h(1) len have "h < length ps"
      by simp
    from place [OF this] h(2)
    consider (locked) d where "goroutines s ! h = Put_locked k d"
      | (store) d where "goroutines s ! h = Put_store k d"
      | (deferred) r where "goroutines s ! h = Put_deferred r"
      unfolding before_def loser_def winner_def by fastforce
    then have "sum_list (map Put_left (goroutines (step s h)))
               < sum_list (map Put_left (goroutines s))"
    proof cases
      case locked
      show ?thesis
      proof (cases "data (shared s) k = None")
        case True
        with locked h(1) have "goroutines (step s h) = (goroutines s)[h := Put_store k d]"
          by (simp add: step_def)
        with h(1) show ?thesis
          by (rule Put_left_update) (simp add: locked)
      next
        case False
        with locked h(1)
        have "goroutines (step s h) = (goroutines s)[h := Put_deferred (Some ErrRecordExists)]"
          by (auto simp: step_def)
        with h(1) show ?thesis
          by (rule Put_left_update) (simp add: locked)
      qed
    next
      case store
      with h(1) have "goroutines (step s h) = (goroutines s)[h := Put_deferred None]"
        by (simp add: step_def)
      with h(1) show ?thesis
        by (rule Put_left_update) (simp add: store)
    next
      case deferred
      with h(1) have "goroutines (step s h) = (goroutines s)[h := Put_ret r]"
        by (simp add: step_def)
      with h(1) show ?thesis
        by (rule Put_left_update) (simp add: deferred)
    qed
    then show ?thesis ..
  next
    case False
    with mutex have free: "\<forall>j < length (goroutines s). \<not> holds (goroutines s ! j)"
      by (simp add: mutex_ok_def)
    from unfinished obtain j where j: "j < length ps" "\<forall>r. goroutines s ! j \<noteq> Put_ret r"
      by blast
    from j(1) len free have nh: "\<not> holds (goroutines s ! j)"
      by simp
    from place [OF j(1)] nh j(2) have call: "goroutines s ! j = Put_call k (ps ! j)"
      unfolding before_def loser_def winner_def by fastforce
    from j(1) len have jl: "j < length (goroutines s)"
      by simp
    with call False
    have "goroutines (step s j) = (goroutines s)[j := Put_locked k (ps ! j)]"
      by (simp add: step_def Lock_def)
    with jl have "sum_list (map Put_left (goroutines (step s j)))
               < sum_list (map Put_left (goroutines s))"
      by (rule Put_left_update) (simp add: call)
    then show ?thesis ..
  qed
qed

lemma Put_race_completes:
  assumes "Put_race k ps s"
  shows "\<exists>sched. \<forall>j < length ps. \<exists>r. goroutines (run s sched) ! j = Put_ret r"
  using assms
proof (induction "sum_list (map Put_left (goroutines s))" arbitrary: s rule: less_induct)
  case less
  show ?case
  proof (cases "\<forall>j < length ps. \<exists>r. goroutines s ! j = Put_ret r")
    case True
    then have "\<forall>j < length ps. \<exists>r. goroutines (run s []) ! j = Put_ret r"
      by simp
    then show ?thesis
      by (rule exI)
  next
    case False
    from Put_race_progress [OF less.prems False] obtain i where
      smaller: "sum_list (map Put_left (goroutines (step s i)))
                < sum_list (map Put_left (goroutines s))"
      by (rule exE)
    have "Put_race k ps (step s i)"
      using less.prems by (rule Put_race_step)
    with smaller have "\<exists>sched. \<forall>j < length ps. \<exists>r.
        goroutines (run (step s i) sched) ! j = Put_ret r"
      by (rule less.hyps)
    then obtain sched where
      "\<forall>j < length ps. \<exists>r. goroutines (run (step s i) sched) ! j = Put_ret r"
      by (rule exE)
    then have "\<forall>j < length ps. \<exists>r. goroutines (run s (i # sched)) ! j = Put_ret r"
      by simp
    then show ?thesis
      by (rule exI)
  qed
qed

text \<open>
  Claim C9. \<open>N \<ge> 1\<close> goroutines each call \<^verbatim>\<open>Put(k, ps ! j)\<close> on a Node whose mutex is free
  and whose table has no \<open>k\<close>; their statements interleave in any order. Whenever all \<open>N\<close>
  calls have returned, exactly one call \<open>w\<close> has returned \<open>nil\<close>, each of the other
  \<open>N - 1\<close> has returned \<open>ErrRecordExists\<close>, and the table holds the payload of \<open>w\<close> under
  \<open>k\<close>. And the calls can always all return: every schedule has a continuation after
  which they have.
\<close>

theorem concurrent_Put_one_success:
  assumes "goroutines s0 = map (Put_call k) ps" and "ps \<noteq> []"
    and "\<not> lock (shared s0)" and "data (shared s0) k = None"
  shows "(\<forall>sched. (\<forall>j < length ps. \<exists>r. goroutines (run s0 sched) ! j = Put_ret r) \<longrightarrow>
            (\<exists>w < length ps.
               goroutines (run s0 sched) ! w = Put_ret None \<and>
               (\<forall>j < length ps. j \<noteq> w \<longrightarrow>
                  goroutines (run s0 sched) ! j = Put_ret (Some ErrRecordExists)) \<and>
               data (shared (run s0 sched)) k = Some (ps ! w)))
       \<and> (\<forall>sched. \<exists>sched'. \<forall>j < length ps. \<exists>r.
            goroutines (run s0 (sched @ sched')) ! j = Put_ret r)"
proof -
  have inv: "Put_race k ps (run s0 sched)" for sched
    using assms(1,3,4) by (intro Put_race_run Put_race_init)
  show ?thesis
  proof (intro conjI allI impI)
    fix sched
    assume "\<forall>j < length ps. \<exists>r. goroutines (run s0 sched) ! j = Put_ret r"
    with inv [of sched] assms(2)
    show "\<exists>w < length ps.
               goroutines (run s0 sched) ! w = Put_ret None \<and>
               (\<forall>j < length ps. j \<noteq> w \<longrightarrow>
                  goroutines (run s0 sched) ! j = Put_ret (Some ErrRecordExists)) \<and>
               data (shared (run s0 sched)) k = Some (ps ! w)"
      by (rule Put_race_finished)
  next
    fix sched
    from Put_race_completes [OF inv [of sched]]
    show "\<exists>sched'. \<forall>j < length ps. \<exists>r. goroutines (run s0 (sched @ sched')) ! j = Put_ret r"
      by (simp add: run_append)
  qed
qed

theorem concurrent_Put_one_success_witness:
  "goroutines (\<lparr>shared = New \<lparr>Addr = 1 :: nat, Router = 2, Heartbeat = 1000, Client = ()\<rparr>,
                goroutines = map (Put_call (7 :: nat)) [[1], [2], [3]], trace = []\<rparr>)
     = map (Put_call 7) [[1], [2], [3]]
   \<and> [[1], [2], [3 :: byte]] \<noteq> []
   \<and> \<not> lock (shared (\<lparr>shared = New \<lparr>Addr = 1 :: nat, Router = 2, Heartbeat = 1000, Client = ()\<rparr>,
                goroutines = map (Put_call (7 :: nat)) [[1], [2], [3]], trace = []\<rparr>))
   \<and> data (shared (\<lparr>shared = New \<lparr>Addr = 1 :: nat, Router = 2, Heartbeat = 1000, Client = ()\<rparr>,
                goroutines = map (Put_call (7 :: nat)) [[1], [2], [3]], trace = []\<rparr>)) 7 = None
   \<and> goroutines (run (\<lparr>shared = New \<lparr>Addr = 1 :: nat, Router = 2, Heartbeat = 1000, Client = ()\<rparr>,
                goroutines = map (Put_call (7 :: nat)) [[1], [2], [3]], trace = []\<rparr>)
         [1, 0, 2, 1, 1, 0, 1, 2, 0, 2, 2, 0, 0, 0])
     = [Put_ret (Some ErrRecordExists), Put_ret None, Put_ret (Some ErrRecordExists)]
   \<and> (\<exists>w < 3. data (shared (run (\<lparr>shared = New \<lparr>Addr = 1 :: nat, Router = 2, Heartbeat = 1000, Client = ()\<rparr>,
                goroutines = map (Put_call (7 :: nat)) [[1], [2], [3]], trace = []\<rparr>)
         [1, 0, 2, 1, 1, 0, 1, 2, 0, 2, 2, 0, 0, 0])) 7 = Some ([[1], [2], [3]] ! w))"
proof -
  let ?s0 = "\<lparr>shared = New \<lparr>Addr = 1 :: nat, Router = 2 :: nat, Heartbeat = 1000, Client = ()\<rparr>,
              goroutines = map (Put_call (7 :: nat)) [[1], [2], [3]], trace = []\<rparr>"
  let ?sched = "[1, 0, 2, 1, 1, 0, 1, 2, 0, 2, 2, 0, 0, 0] :: nat list"
  have 1: "goroutines ?s0 = map (Put_call 7) [[1], [2], [3]]" and 2: "[[1], [2], [3 :: byte]] \<noteq> []"
    and 3: "\<not> lock (shared ?s0)" and 4: "data (shared ?s0) 7 = None"
    by (simp_all add: New_def)
  have fin: "goroutines (run ?s0 ?sched)
      = [Put_ret (Some ErrRecordExists), Put_ret None, Put_ret (Some ErrRecordExists)]"
    by (simp add: New_def step_def Lock_def Unlock_def)
  have returned: "\<forall>j < length [[1], [2], [3 :: byte]]. \<exists>r. goroutines (run ?s0 ?sched) ! j = Put_ret r"
    unfolding fin by (simp add: nth_Cons' less_Suc_eq)
  from concurrent_Put_one_success [OF 1 2 3 4]
  have "(\<forall>j < length [[1], [2], [3 :: byte]]. \<exists>r. goroutines (run ?s0 ?sched) ! j = Put_ret r) \<longrightarrow>
        (\<exists>w < length [[1], [2], [3 :: byte]].
           goroutines (run ?s0 ?sched) ! w = Put_ret None \<and>
           (\<forall>j < length [[1], [2], [3 :: byte]]. j \<noteq> w \<longrightarrow>
              goroutines (run ?s0 ?sched) ! j = Put_ret (Some ErrRecordExists)) \<and>
           data (shared (run ?s0 ?sched)) 7 = Some ([[1], [2], [3]] ! w))"
    by (rule conjunct1 [THEN spec])
  from mp [OF this returned] obtain w where
    "w < length [[1], [2], [3 :: byte]]"
    "data (shared (run ?s0 ?sched)) 7 = Some ([[1], [2], [3]] ! w)"
    by (elim exE conjE)
  then have 5: "\<exists>w < 3. data (shared (run ?s0 ?sched)) 7 = Some ([[1], [2], [3]] ! w)"
    by (intro exI [of _ w]) simp
  from 1 2 3 4 fin 5 show ?thesis
    by (intro conjI)
qed


end
